theory Spec2Isabelle
  imports Main "HOL-Library.Word" "HOL-Library.Signed_Division"
begin

section \<open>Machine integers of the target\<close>

text \<open>
  The firmware runs on a 32-bit microcontroller: \<open>int\<close> and \<open>int32_t\<close> are 32-bit two's
  complement, \<open>uint32_t\<close> is 32-bit unsigned, \<open>uint16_t\<close> is 16-bit unsigned.  All three
  are words; \<open>sint\<close> reads a signed one, \<open>unat\<close> and \<open>uint\<close> an unsigned one.  Signed
  arithmetic that overflows is undefined in C; the model gives it the two's complement
  wrap-around of the machine.
\<close>

type_synonym int32 = "32 word"
type_synonym uint32 = "32 word"
type_synonym uint16 = "16 word"

text \<open>C's \<open>/\<close> on \<open>int\<close>: the quotient is truncated towards zero.\<close>

definition c_sdiv :: "int32 \<Rightarrow> int32 \<Rightarrow> int32" where
  "c_sdiv a b = word_of_int (sint a sdiv sint b)"

text \<open>
  The C code checks neither a divisor nor an index nor a pointer.  A division by zero, an
  access outside an array and a dereference of the null pointer are undefined in C; the
  model ends the call there with one of these values, so that a result \<open>Inl\<close> marks a call
  to which C gives no meaning, not an error that the program reports.
\<close>

datatype fault = Div_By_Zero | Out_Of_Bounds | Null_Pointer


section \<open>Distance calibration (Analog\_Distance\_Sensors.h, Analog\_Distance\_Sensors.c)\<close>

definition Ax :: int32 where "Ax = 1195159"
definition Bx :: int32 where "Bx = - 1058"
definition Cx :: int32 where "Cx = 40"
definition ANALOG_DISTANCE_SENSOR_MAX :: int32 where "ANALOG_DISTANCE_SENSOR_MAX = 2552"

text \<open>
  \<open>int32_t Analog_Distance_Sensor_Calibrate(int filtered_distance)\<close>.  The divisor
  \<open>filtered_distance + Bx\<close> is at least 1494 on the only path that divides, so the division
  cannot fault.
\<close>

definition Analog_Distance_Sensor_Calibrate :: "int32 \<Rightarrow> int32" where
  "Analog_Distance_Sensor_Calibrate filtered_distance =
     (if filtered_distance <s ANALOG_DISTANCE_SENSOR_MAX then 800
      else c_sdiv Ax (filtered_distance + Bx) + Cx)"


section \<open>Wall-following controller (Maze\_Program/main.c)\<close>

definition DESIRED_DISTANCE :: int32 where "DESIRED_DISTANCE = 250"
definition PWM_NOMINAL :: int32 where "PWM_NOMINAL = 2500"
definition PWM_SWING :: int32 where "PWM_SWING = 1000"
definition PWM_MIN :: int32 where "PWM_MIN = PWM_NOMINAL - PWM_SWING"
definition PWM_MAX :: int32 where "PWM_MAX = PWM_NOMINAL + PWM_SWING"

text \<open>The globals of main.c that the controller reads and writes.\<close>

record robot =
  Converted_Distance_Left :: int32
  Converted_Distance_Center :: int32
  Converted_Distance_Right :: int32
  Error :: int32
  Kp :: int32
  Set_Point :: int32
  Duty_Cycle_Left :: uint16
  Duty_Cycle_Right :: uint16

text \<open>The call that a controller tick makes to the motor driver (Motor.h).\<close>

datatype motor_call =
    Motor_Forward uint16 uint16
  | Motor_Backward uint16 uint16
  | Motor_Stop

text \<open>
  \<open>void Controller_3()\<close>, one statement per step.  A \<open>uint16_t\<close> operand of a comparison
  is promoted to \<open>int\<close> (\<open>ucast\<close> to 32 bits); an \<open>int\<close> assigned to a \<open>uint16_t\<close> keeps
  its low 16 bits (\<open>ucast\<close> to 16 bits).  \<open>DEBUG_ACTIVE\<close> is not defined, so the
  motor call is compiled in.
\<close>

definition Controller_3_set_point :: "robot \<Rightarrow> robot" where
  "Controller_3_set_point s =
     (if DESIRED_DISTANCE <s Converted_Distance_Left s \<and> DESIRED_DISTANCE <s Converted_Distance_Right s
      then s\<lparr>Set_Point := c_sdiv (Converted_Distance_Left s + Converted_Distance_Right s) 2\<rparr>
      else s\<lparr>Set_Point := DESIRED_DISTANCE\<rparr>)"

definition Controller_3_error :: "robot \<Rightarrow> robot" where
  "Controller_3_error s =
     (if Converted_Distance_Left s <s Converted_Distance_Right s
      then s\<lparr>Error := Converted_Distance_Left s - Set_Point s\<rparr>
      else s\<lparr>Error := Set_Point s - Converted_Distance_Right s\<rparr>)"

definition Controller_3_duty :: "robot \<Rightarrow> robot" where
  "Controller_3_duty s =
     (let s1 = s\<lparr>Duty_Cycle_Right := ucast (PWM_NOMINAL - Kp s * Error s)\<rparr>
      in s1\<lparr>Duty_Cycle_Left := ucast (PWM_NOMINAL + Kp s1 * Error s1)\<rparr>)"

definition Controller_3_clamp :: "robot \<Rightarrow> robot" where
  "Controller_3_clamp s =
     (let s1 = (if (ucast (Duty_Cycle_Right s) :: int32) <s PWM_MIN
                then s\<lparr>Duty_Cycle_Right := ucast PWM_MIN\<rparr> else s);
          s2 = (if PWM_MAX <s (ucast (Duty_Cycle_Right s1) :: int32)
                then s1\<lparr>Duty_Cycle_Right := ucast PWM_MAX\<rparr> else s1);
          s3 = (if (ucast (Duty_Cycle_Left s2) :: int32) <s PWM_MIN
                then s2\<lparr>Duty_Cycle_Left := ucast PWM_MIN\<rparr> else s2)
      in (if PWM_MAX <s (ucast (Duty_Cycle_Left s3) :: int32)
          then s3\<lparr>Duty_Cycle_Left := ucast PWM_MAX\<rparr> else s3))"

definition Controller_3_actuate :: "robot \<Rightarrow> motor_call" where
  "Controller_3_actuate s =
     (if DESIRED_DISTANCE \<le>s Converted_Distance_Center s \<and> Converted_Distance_Center s <s 800
      then Motor_Forward (Duty_Cycle_Left s) (Duty_Cycle_Right s)
      else if Converted_Distance_Center s <s DESIRED_DISTANCE - 50
      then Motor_Backward (Duty_Cycle_Left s) (Duty_Cycle_Right s)
      else Motor_Stop)"

text \<open>One tick: the globals after the tick and the motor call made.\<close>

definition Controller_3 :: "robot \<Rightarrow> robot \<times> motor_call" where
  "Controller_3 s =
     (let s' = Controller_3_clamp (Controller_3_duty (Controller_3_error (Controller_3_set_point s)))
      in (s', Controller_3_actuate s'))"

text \<open>The duty cycles that a motor call carries (none for \<open>Motor_Stop\<close>).\<close>

fun duties_of :: "motor_call \<Rightarrow> uint16 list" where
  "duties_of (Motor_Forward l r) = [l, r]"
| "duties_of (Motor_Backward l r) = [l, r]"
| "duties_of Motor_Stop = []"


text \<open>
  A state of the globals for the examples: 300 mm to both side walls, 250 mm ahead,
  gain 4 (the initial value of \<open>Kp\<close>).
\<close>

definition robot_250 :: robot where
  "robot_250 = \<lparr>Converted_Distance_Left = 300, Converted_Distance_Center = 250,
     Converted_Distance_Right = 300, Error = 0, Kp = 4, Set_Point = 250,
     Duty_Cycle_Left = 2500, Duty_Cycle_Right = 2500\<rparr>"

text \<open>A duty cycle, read as the \<open>int\<close> it is promoted to, lies in \<open>[PWM_MIN, PWM_MAX]\<close>.\<close>

definition in_pwm_range :: "uint16 \<Rightarrow> bool" where
  "in_pwm_range d = (sint PWM_MIN \<le> uint d \<and> uint d \<le> sint PWM_MAX)"

subsection \<open>The controller as the specification words it\<close>

text \<open>
  Section 4.4 of the specification, over the mathematical integers: the set point, the
  error, and the three-way actuation policy on the center distance ("greater than desired
  distance and below an upper sanity bound", "below desired-minus-margin", "otherwise").
\<close>

definition spec_set_point :: "int \<Rightarrow> int \<Rightarrow> int" where
  "spec_set_point left right =
     (if 250 < left \<and> 250 < right then (left + right) sdiv 2 else 250)"

definition spec_error :: "int \<Rightarrow> int \<Rightarrow> int \<Rightarrow> int" where
  "spec_error left right set_point =
     (if left < right then left - set_point else set_point - right)"

definition spec_policy :: "int \<Rightarrow> uint16 \<Rightarrow> uint16 \<Rightarrow> motor_call" where
  "spec_policy center l r =
     (if 250 < center \<and> center < 800 then Motor_Forward l r
      else if center < 250 - 50 then Motor_Backward l r
      else Motor_Stop)"


section \<open>Low-pass filters and integer square root (LPF.c)\<close>

subsection \<open>Newton's method square root\<close>

text \<open>
  \<open>uint32_t isqrt(uint32_t s)\<close>: the loop counter \<open>n\<close> runs from 16 down to 1.  Unsigned
  arithmetic wraps; a division by zero is a fault.
\<close>

fun isqrt_loop :: "nat \<Rightarrow> uint32 \<Rightarrow> uint32 \<Rightarrow> fault + uint32" where
  "isqrt_loop 0 s t = Inr t"
| "isqrt_loop (Suc n) s t =
     (if t = 0 then Inl Div_By_Zero
      else isqrt_loop n s (((t * t + s) div t) div 2))"

definition isqrt :: "uint32 \<Rightarrow> fault + uint32" where
  "isqrt s = isqrt_loop 16 s (s div 10 + 1)"

subsection \<open>Filter state\<close>

text \<open>
  The globals of LPF.c.  The arrays \<open>x\<close>, \<open>x2\<close>, \<open>x3\<close> (1024 elements each) are stores from
  index to value, named \<open>x_buf\<close>, \<open>x2_buf\<close>, \<open>x3_buf\<close> here.  The update functions of the
  C code check no index; in the model an access outside the array ends the call with
  \<open>Out_Of_Bounds\<close>, which stands for the undefined behaviour of that access (the compiled
  code stores into whatever follows the array and goes on).  The theorems that settle the
  claims on the filters therefore do not assume that a call returns: they give a condition
  on the state before the call and prove that the call returns under it.  A pointer into
  an array is the index it points at, the null pointer is \<open>None\<close>.  \<open>Size\<close> is one variable,
  written by all three initialisers.  The parameter \<open>size\<close> of the initialisers is \<open>sz\<close>
  here.  \<open>Pt\<close> belongs to \<open>LPF_Init_old\<close> and \<open>LPF_Calc_old\<close> only, which no caller uses,
  and is left out.
\<close>

record lpf =
  Size :: uint32
  x_buf :: "nat \<Rightarrow> uint32"
  I1 :: uint32
  LPFSum :: uint32
  x2_buf :: "nat \<Rightarrow> uint32"
  Pt2 :: "nat option"
  LPFSum2 :: uint32
  x3_buf :: "nat \<Rightarrow> uint32"
  Pt3 :: "nat option"
  LPFSum3 :: uint32

definition x_len :: nat where "x_len = 1024"

text \<open>Static storage at program start: zero, and null pointers.\<close>

definition lpf_reset :: lpf where
  "lpf_reset = \<lparr>Size = 0, x_buf = (\<lambda>i. 0), I1 = 0, LPFSum = 0,
     x2_buf = (\<lambda>i. 0), Pt2 = None, LPFSum2 = 0,
     x3_buf = (\<lambda>i. 0), Pt3 = None, LPFSum3 = 0\<rparr>"

subsection \<open>First filter\<close>

text \<open>
  The loop \<open>for(i=0; i<Size; i++) x[i] = initial\<close>; \<open>Size\<close> is at most 1024 when it runs,
  so every write is inside the array.
\<close>

function LPF_Init_loop :: "nat \<Rightarrow> uint32 \<Rightarrow> lpf \<Rightarrow> lpf" where
  "LPF_Init_loop i initial s =
     (if i < unat (Size s)
      then LPF_Init_loop (i + 1) initial (s\<lparr>x_buf := (x_buf s)(i := initial)\<rparr>)
      else s)"
  by pat_completeness auto
termination
  by (relation "measure (\<lambda>(i, initial, s). unat (Size s) - i)") auto

declare LPF_Init_loop.simps [simp del]

definition LPF_Init :: "uint32 \<Rightarrow> uint32 \<Rightarrow> lpf \<Rightarrow> lpf" where
  "LPF_Init initial sz s =
     (let sz = (if 1024 < sz then 1024 else sz);
          s1 = s\<lparr>Size := sz\<rparr>;
          s2 = s1\<lparr>I1 := Size s1 - 1\<rparr>;
          s3 = s2\<lparr>LPFSum := Size s2 * initial\<rparr>
      in LPF_Init_loop 0 initial s3)"

definition LPF_Calc :: "uint32 \<Rightarrow> lpf \<Rightarrow> fault + (uint32 \<times> lpf)" where
  "LPF_Calc newdata s =
     (let s1 = (if I1 s = 0 then s\<lparr>I1 := Size s - 1\<rparr> else s\<lparr>I1 := I1 s - 1\<rparr>);
          i = unat (I1 s1)
      in if x_len \<le> i then Inl Out_Of_Bounds
         else
           let s2 = s1\<lparr>LPFSum := LPFSum s1 + newdata - x_buf s1 i\<rparr>;
               s3 = s2\<lparr>x_buf := (x_buf s2)(i := newdata)\<rparr>
           in if Size s3 = 0 then Inl Div_By_Zero
              else Inr (LPFSum s3 div Size s3, s3))"

subsection \<open>Second filter\<close>

function LPF_Init2_loop :: "nat \<Rightarrow> uint32 \<Rightarrow> lpf \<Rightarrow> lpf" where
  "LPF_Init2_loop i initial s =
     (if i < unat (2 * Size s)
      then LPF_Init2_loop (i + 1) initial (s\<lparr>x2_buf := (x2_buf s)(i := initial)\<rparr>)
      else s)"
  by pat_completeness auto
termination
  by (relation "measure (\<lambda>(i, initial, s). unat (2 * Size s) - i)") auto

declare LPF_Init2_loop.simps [simp del]

definition LPF_Init2 :: "uint32 \<Rightarrow> uint32 \<Rightarrow> lpf \<Rightarrow> lpf" where
  "LPF_Init2 initial sz s =
     (let sz = (if 512 < sz then 512 else sz);
          s1 = s\<lparr>Size := sz\<rparr>;
          s2 = s1\<lparr>Pt2 := Some 0\<rparr>;
          s3 = s2\<lparr>LPFSum2 := Size s2 * initial\<rparr>
      in LPF_Init2_loop 0 initial s3)"

text \<open>
  \<open>LPF_Calc2\<close> moves the pointer (\<open>&x2[Size-1]\<close> is computed in \<open>uint32_t\<close>), reads \<open>*Pt2\<close>,
  then writes \<open>*(Pt2+Size)\<close> and \<open>*Pt2\<close>, in this order.  The two tests against \<open>x_len\<close> are
  not in the C code: they mark the states in which \<open>Pt2\<close> or \<open>Pt2+Size\<close> points outside
  \<open>x2\<close>, which is possible because \<open>LPF_Init\<close> accepts a \<open>Size\<close> of up to 1024 while \<open>x2\<close>
  holds two windows of at most 512.  \<open>LPF_Calc3\<close> is the same on \<open>x3\<close> and \<open>Pt3\<close>.
\<close>

definition LPF_Calc2 :: "uint32 \<Rightarrow> lpf \<Rightarrow> fault + (uint32 \<times> lpf)" where
  "LPF_Calc2 newdata s =
     (case Pt2 s of
        None \<Rightarrow> Inl Null_Pointer
      | Some p \<Rightarrow>
          let p' = (if p = 0 then unat (Size s - 1) else p - 1);
              s1 = s\<lparr>Pt2 := Some p'\<rparr>
          in if x_len \<le> p' then Inl Out_Of_Bounds
             else
               let s2 = s1\<lparr>LPFSum2 := LPFSum2 s1 + newdata - x2_buf s1 p'\<rparr>
               in if x_len \<le> p' + unat (Size s2) then Inl Out_Of_Bounds
                  else
                    let s3 = s2\<lparr>x2_buf := (x2_buf s2)(p' + unat (Size s2) := newdata)\<rparr>;
                        s4 = s3\<lparr>x2_buf := (x2_buf s3)(p' := newdata)\<rparr>
                    in if Size s4 = 0 then Inl Div_By_Zero
                       else Inr (LPFSum2 s4 div Size s4, s4))"

subsection \<open>Third filter\<close>

function LPF_Init3_loop :: "nat \<Rightarrow> uint32 \<Rightarrow> lpf \<Rightarrow> lpf" where
  "LPF_Init3_loop i initial s =
     (if i < unat (2 * Size s)
      then LPF_Init3_loop (i + 1) initial (s\<lparr>x3_buf := (x3_buf s)(i := initial)\<rparr>)
      else s)"
  by pat_completeness auto
termination
  by (relation "measure (\<lambda>(i, initial, s). unat (2 * Size s) - i)") auto

declare LPF_Init3_loop.simps [simp del]

definition LPF_Init3 :: "uint32 \<Rightarrow> uint32 \<Rightarrow> lpf \<Rightarrow> lpf" where
  "LPF_Init3 initial sz s =
     (let sz = (if 512 < sz then 512 else sz);
          s1 = s\<lparr>Size := sz\<rparr>;
          s2 = s1\<lparr>Pt3 := Some 0\<rparr>;
          s3 = s2\<lparr>LPFSum3 := Size s2 * initial\<rparr>
      in LPF_Init3_loop 0 initial s3)"

definition LPF_Calc3 :: "uint32 \<Rightarrow> lpf \<Rightarrow> fault + (uint32 \<times> lpf)" where
  "LPF_Calc3 newdata s =
     (case Pt3 s of
        None \<Rightarrow> Inl Null_Pointer
      | Some p \<Rightarrow>
          let p' = (if p = 0 then unat (Size s - 1) else p - 1);
              s1 = s\<lparr>Pt3 := Some p'\<rparr>
          in if x_len \<le> p' then Inl Out_Of_Bounds
             else
               let s2 = s1\<lparr>LPFSum3 := LPFSum3 s1 + newdata - x3_buf s1 p'\<rparr>
               in if x_len \<le> p' + unat (Size s2) then Inl Out_Of_Bounds
                  else
                    let s3 = s2\<lparr>x3_buf := (x3_buf s2)(p' + unat (Size s2) := newdata)\<rparr>;
                        s4 = s3\<lparr>x3_buf := (x3_buf s3)(p' := newdata)\<rparr>
                    in if Size s4 = 0 then Inl Div_By_Zero
                       else Inr (LPFSum3 s4 div Size s4, s4))"

subsection \<open>Repeated calls\<close>

text \<open>
  The sampling task calls \<open>LPF_Calc\<close> once per sample.  \<open>LPF_Calc_seq\<close> feeds a list of
  samples, one call each, and collects the returned values; a fault ends the run.
\<close>

fun LPF_Calc_seq :: "uint32 list \<Rightarrow> lpf \<Rightarrow> fault + (uint32 list \<times> lpf)" where
  "LPF_Calc_seq [] s = Inr ([], s)"
| "LPF_Calc_seq (d # ds) s =
     (case LPF_Calc d s of
        Inl e \<Rightarrow> Inl e
      | Inr (y, s') \<Rightarrow>
          (case LPF_Calc_seq ds s' of
             Inl e \<Rightarrow> Inl e
           | Inr (ys, s'') \<Rightarrow> Inr (y # ys, s'')))"


subsection \<open>Sampling task (Maze\_Program/main.c)\<close>

text \<open>
  \<open>void Sample_Analog_Distance_Sensor()\<close>.  The three raw values that
  \<open>Analog_Distance_Sensor_Start_Conversion\<close> reads from the converter are parameters.  The
  globals \<open>Filtered_Distance_Right\<close>, \<open>Filtered_Distance_Center\<close> and
  \<open>Filtered_Distance_Left\<close> are written and read only here and are bound variables of
  the model.  A \<open>uint32_t\<close> passed for the \<open>int\<close> parameter of the calibration keeps its
  bits.
\<close>

definition Sample_Analog_Distance_Sensor ::
  "uint32 \<Rightarrow> uint32 \<Rightarrow> uint32 \<Rightarrow> lpf \<times> robot \<Rightarrow> fault + (lpf \<times> robot)" where
  "Sample_Analog_Distance_Sensor Raw_A17 Raw_A14 Raw_A16 fg =
     (case LPF_Calc Raw_A17 (fst fg) of
        Inl e \<Rightarrow> Inl e
      | Inr (Filtered_Distance_Right, f1) \<Rightarrow>
          (case LPF_Calc2 Raw_A14 f1 of
             Inl e \<Rightarrow> Inl e
           | Inr (Filtered_Distance_Center, f2) \<Rightarrow>
               (case LPF_Calc3 Raw_A16 f2 of
                  Inl e \<Rightarrow> Inl e
                | Inr (Filtered_Distance_Left, f3) \<Rightarrow>
                    Inr (f3, (snd fg)
                      \<lparr>Converted_Distance_Left :=
                         Analog_Distance_Sensor_Calibrate Filtered_Distance_Left,
                       Converted_Distance_Center :=
                         Analog_Distance_Sensor_Calibrate Filtered_Distance_Center,
                       Converted_Distance_Right :=
                         Analog_Distance_Sensor_Calibrate Filtered_Distance_Right\<rparr>))))"

subsection \<open>The three filters, by channel\<close>

text \<open>
  The three filters are three copies of the same text with suffixed names.  \<open>channel\<close>
  selects one of them: its initialiser and update function, its array, the position in
  the array that the next update moves from (the index \<open>I1\<close> of the first filter, the
  pointer of the other two), its running sum, and the largest depth its initialiser
  accepts.
\<close>

datatype channel = Ch1 | Ch2 | Ch3

fun LPF_Init_ch :: "channel \<Rightarrow> uint32 \<Rightarrow> uint32 \<Rightarrow> lpf \<Rightarrow> lpf" where
  "LPF_Init_ch Ch1 = LPF_Init"
| "LPF_Init_ch Ch2 = LPF_Init2"
| "LPF_Init_ch Ch3 = LPF_Init3"

fun LPF_Calc_ch :: "channel \<Rightarrow> uint32 \<Rightarrow> lpf \<Rightarrow> fault + (uint32 \<times> lpf)" where
  "LPF_Calc_ch Ch1 = LPF_Calc"
| "LPF_Calc_ch Ch2 = LPF_Calc2"
| "LPF_Calc_ch Ch3 = LPF_Calc3"

fun chan_buf :: "channel \<Rightarrow> lpf \<Rightarrow> nat \<Rightarrow> uint32" where
  "chan_buf Ch1 s = x_buf s"
| "chan_buf Ch2 s = x2_buf s"
| "chan_buf Ch3 s = x3_buf s"

fun chan_idx :: "channel \<Rightarrow> lpf \<Rightarrow> nat option" where
  "chan_idx Ch1 s = Some (unat (I1 s))"
| "chan_idx Ch2 s = Pt2 s"
| "chan_idx Ch3 s = Pt3 s"

fun chan_sum :: "channel \<Rightarrow> lpf \<Rightarrow> uint32" where
  "chan_sum Ch1 s = LPFSum s"
| "chan_sum Ch2 s = LPFSum2 s"
| "chan_sum Ch3 s = LPFSum3 s"

fun chan_max :: "channel \<Rightarrow> uint32" where
  "chan_max Ch1 = 1024"
| "chan_max Ch2 = 512"
| "chan_max Ch3 = 512"

text \<open>
  The window of a filter is the first \<open>Size\<close> elements of its array; \<open>chan_total\<close> is the
  sum of the window over the natural numbers, \<open>sum_list (chan_window c s)\<close> the same sum in
  \<open>uint32_t\<close> arithmetic.
\<close>

definition chan_window :: "channel \<Rightarrow> lpf \<Rightarrow> uint32 list" where
  "chan_window c s = map (chan_buf c s) [0..<unat (Size s)]"

definition chan_total :: "channel \<Rightarrow> lpf \<Rightarrow> nat" where
  "chan_total c s = sum_list (map unat (chan_window c s))"

text \<open>
  The invariant of a filter: the depth is at least 1 and at most what the initialiser
  accepts, the position is inside the window, and the running sum is the sum of the
  window.
\<close>

definition chan_inv :: "channel \<Rightarrow> lpf \<Rightarrow> bool" where
  "chan_inv c s =
     (0 < Size s \<and> Size s \<le> chan_max c
      \<and> (case chan_idx c s of None \<Rightarrow> False | Some i \<Rightarrow> i < unat (Size s))
      \<and> chan_sum c s = sum_list (chan_window c s))"

text \<open>
  A filter is ready for a call of its update function when the depth is at least 1 and at
  most what its initialiser accepts and its position is inside the window: then every
  array access of the update is inside the array and the divisor is not 0.  It is the
  invariant without the clause on the running sum.
\<close>

definition chan_ready :: "channel \<Rightarrow> lpf \<Rightarrow> bool" where
  "chan_ready c s =
     (0 < Size s \<and> Size s \<le> chan_max c
      \<and> (case chan_idx c s of None \<Rightarrow> False | Some i \<Rightarrow> i < unat (Size s)))"

text \<open>
  The variables that belong to one filter alone, and what a call of its update function
  returns and leaves behind for it.  \<open>Size\<close> belongs to all three.
\<close>

definition chan_state :: "channel \<Rightarrow> lpf \<Rightarrow> (nat \<Rightarrow> uint32) \<times> nat option \<times> uint32" where
  "chan_state c s = (chan_buf c s, chan_idx c s, chan_sum c s)"

definition chan_obs ::
  "channel \<Rightarrow> uint32 \<times> lpf \<Rightarrow> uint32 \<times> uint32 \<times> ((nat \<Rightarrow> uint32) \<times> nat option \<times> uint32)" where
  "chan_obs c r = (fst r, Size (snd r), chan_state c (snd r))"

text \<open>
  The three filters initialised in the order of \<open>main\<close>, here with depth 4 and first
  sample 10.
\<close>

definition lpf_three :: lpf where
  "lpf_three = LPF_Init3 10 4 (LPF_Init2 10 4 (LPF_Init 10 4 lpf_reset))"

subsection \<open>The first filter as a moving average\<close>

text \<open>
  \<open>window\<close> is the window of the first filter, \<open>history\<close> the same samples from the newest
  to the oldest: the window rotated to start at \<open>I1\<close>.  \<open>prev_index\<close> is the step of the
  index, down by one and from 0 to the last position.
\<close>

definition prev_index :: "nat \<Rightarrow> nat \<Rightarrow> nat" where
  "prev_index n i = (if i = 0 then n - 1 else i - 1)"

definition window :: "lpf \<Rightarrow> uint32 list" where
  "window s = map (x_buf s) [0..<unat (Size s)]"

definition history :: "lpf \<Rightarrow> uint32 list" where
  "history s = rotate (unat (I1 s)) (window s)"

definition lpf_ok :: "lpf \<Rightarrow> bool" where
  "lpf_ok s = (0 < unat (Size s) \<and> unat (Size s) \<le> x_len \<and> unat (I1 s) < unat (Size s))"

definition lpf_inv :: "lpf \<Rightarrow> bool" where
  "lpf_inv s = (lpf_ok s \<and> LPFSum s = sum_list (window s))"

text \<open>
  The moving average of section 4.1 of the specification on a list of the last \<open>n\<close>
  samples: a new sample evicts the oldest one, the output is the sum of the list divided
  by \<open>n\<close>, in \<open>uint32_t\<close> arithmetic.
\<close>

fun avg_seq :: "uint32 \<Rightarrow> uint32 list \<Rightarrow> uint32 list \<Rightarrow> uint32 list" where
  "avg_seq n h [] = []"
| "avg_seq n h (d # ds) = (sum_list (d # butlast h) div n) # avg_seq n (d # butlast h) ds"

text \<open>The samples after \<open>i\<close> updates with \<open>v\<close> of a filter of depth \<open>n\<close> that held zeros.\<close>

definition ramp :: "nat \<Rightarrow> uint32 \<Rightarrow> nat \<Rightarrow> uint32 list" where
  "ramp n v i = replicate (min i n) v @ replicate (n - min i n) 0"

subsection \<open>Newton's iteration on the natural numbers\<close>

definition newton :: "nat \<Rightarrow> nat \<Rightarrow> nat" where
  "newton s t = (t + s div t) div 2"


section \<open>Word arithmetic without overflow\<close>

lemma uint_ucast16: "uint (ucast (w :: uint16) :: int32) = uint w"
  by (rule uint_up_ucast) (simp add: is_up)

lemma sint_ucast16: "sint (ucast (w :: uint16) :: int32) = uint w"
proof -
  have "uint w < 2 ^ 16" using uint_bounded [of w] by simp
  then have b: "uint w < 2 ^ 31" by simp
  have "signed_take_bit 31 (uint w) = uint w"
  proof (rule signed_take_bit_int_eq_self)
    have "- (2 ^ 31) \<le> (0::int)" by simp
    also have "0 \<le> uint w" by simp
    finally show "- (2 ^ 31) \<le> uint w" .
    show "uint w < 2 ^ 31" by (rule b)
  qed
  then show ?thesis by (simp add: sint_uint uint_ucast16)
qed

lemma sint32_of_int: "- (2 ^ 31) \<le> k \<Longrightarrow> k < 2 ^ 31 \<Longrightarrow> sint (word_of_int k :: int32) = k"
  by (simp add: sint_sbintrunc' signed_take_bit_int_eq_self)

lemma sint32_range: "- (2 ^ 31) \<le> sint (a :: int32) \<and> sint a < 2 ^ 31"
  using sint_range_size [of a] by (simp add: word_size)

lemma sint32_add:
  "- (2 ^ 31) \<le> sint a + sint b \<Longrightarrow> sint a + sint b < 2 ^ 31 \<Longrightarrow>
   sint (a + b :: int32) = sint a + sint b"
  by (simp add: sint_word_ariths signed_take_bit_int_eq_self)

lemma sint32_diff:
  "- (2 ^ 31) \<le> sint a - sint b \<Longrightarrow> sint a - sint b < 2 ^ 31 \<Longrightarrow>
   sint (a - b :: int32) = sint a - sint b"
  by (simp add: sint_word_ariths signed_take_bit_int_eq_self)

lemma sdiv_pos: "0 \<le> (k::int) \<Longrightarrow> 0 < l \<Longrightarrow> k sdiv l = k div l"
  by (cases "k = 0") (simp_all add: signed_divide_int_def)

lemma sint_c_sdiv_pos:
  assumes "0 \<le> sint a" "0 < sint b"
  shows "sint (c_sdiv a b) = sint a div sint b"
proof -
  have "sint a div sint b \<le> sint a"
    using assms zdiv_mono2 [of "sint a" 1 "sint b"] by simp
  moreover have "0 \<le> sint a div sint b"
    using assms by (simp add: pos_imp_zdiv_nonneg_iff)
  ultimately show ?thesis
    unfolding c_sdiv_def using assms sint32_range [of a]
    by (simp add: sdiv_pos sint32_of_int)
qed

lemma sint_c_sdiv_2:
  assumes "0 \<le> sint a"
  shows "sint (c_sdiv a 2) = sint a sdiv 2"
  using sint_c_sdiv_pos [of a 2] assms by (simp add: sdiv_pos)


section \<open>Properties of the calibration\<close>

lemmas cal_macros = Ax_def Bx_def Cx_def ANALOG_DISTANCE_SENSOR_MAX_def

lemma calibrate_far: "sint x < 2552 \<Longrightarrow> Analog_Distance_Sensor_Calibrate x = 800"
  by (simp add: Analog_Distance_Sensor_Calibrate_def cal_macros word_sless_alt)

lemma calibrate_formula:
  assumes "2552 \<le> sint x"
  shows "sint (Analog_Distance_Sensor_Calibrate x) = 1195159 div (sint x - 1058) + 40"
    and "0 \<le> 1195159 div (sint x - 1058)" and "1195159 div (sint x - 1058) \<le> 799"
proof -
  have d: "sint (x + Bx) = sint x - 1058"
    using assms sint32_range [of x] sint32_add [of x Bx] by (simp add: Bx_def)
  have q: "sint (c_sdiv Ax (x + Bx)) = 1195159 div (sint x - 1058)"
    using assms sint_c_sdiv_pos [of Ax "x + Bx"] by (simp add: d Ax_def)
  show lo: "0 \<le> 1195159 div (sint x - 1058)"
    using assms by (simp add: pos_imp_zdiv_nonneg_iff)
  have "(1195159::int) div (sint x - 1058) \<le> 1195159 div 1494"
    using assms by (intro zdiv_mono2) simp_all
  then show hi: "1195159 div (sint x - 1058) \<le> 799" by simp
  have "sint (c_sdiv Ax (x + Bx) + Cx) = 1195159 div (sint x - 1058) + 40"
    using lo hi sint32_add [of "c_sdiv Ax (x + Bx)" Cx] by (simp add: q Cx_def)
  then show "sint (Analog_Distance_Sensor_Calibrate x) = 1195159 div (sint x - 1058) + 40"
    using assms
    by (simp add: Analog_Distance_Sensor_Calibrate_def ANALOG_DISTANCE_SENSOR_MAX_def word_sless_alt)
qed

text \<open>Every value that the calibration returns lies between 40 and 839.\<close>

lemma calibrate_range_all:
  "40 \<le> sint (Analog_Distance_Sensor_Calibrate x) \<and> sint (Analog_Distance_Sensor_Calibrate x) \<le> 839"
proof (cases "sint x < 2552")
  case True
  then show ?thesis by (simp add: calibrate_far)
next
  case False
  then have x: "2552 \<le> sint x" by simp
  from calibrate_formula [OF x] show ?thesis by simp
qed

text \<open>
  Claim C4.  \<open>Analog_Distance_Sensor_Calibrate x\<close> is the sentinel 800 for every \<open>x\<close> below
  \<open>ANALOG_DISTANCE_SENSOR_MAX = 2552\<close>, and for every \<open>x\<close> from 2552 on it is
  \<open>Ax / (x + Bx) + Cx = 1195159 / (x - 1058) + 40\<close> with the quotient truncated.  At the
  boundary, 2551 gives the sentinel and 2552 gives the value of the formula, 839.
\<close>

theorem Calibrate_sentinel_and_formula:
  "(sint x < 2552 \<longrightarrow> Analog_Distance_Sensor_Calibrate x = 800)
   \<and> (2552 \<le> sint x \<longrightarrow>
        sint (Analog_Distance_Sensor_Calibrate x) = 1195159 sdiv (sint x + (- 1058)) + 40)
   \<and> Analog_Distance_Sensor_Calibrate (ANALOG_DISTANCE_SENSOR_MAX - 1) = 800
   \<and> Analog_Distance_Sensor_Calibrate ANALOG_DISTANCE_SENSOR_MAX = 839"
proof (intro conjI impI)
  assume "sint x < 2552"
  then show "Analog_Distance_Sensor_Calibrate x = 800" by (rule calibrate_far)
next
  assume a: "2552 \<le> sint x"
  then have "1195159 sdiv (sint x + (- 1058)) = 1195159 div (sint x - 1058)"
    by (simp add: sdiv_pos)
  then show "sint (Analog_Distance_Sensor_Calibrate x) = 1195159 sdiv (sint x + (- 1058)) + 40"
    using calibrate_formula(1) [OF a] by simp
next
  show "Analog_Distance_Sensor_Calibrate (ANALOG_DISTANCE_SENSOR_MAX - 1) = 800"
    by (simp add: Analog_Distance_Sensor_Calibrate_def cal_macros)
next
  show "Analog_Distance_Sensor_Calibrate ANALOG_DISTANCE_SENSOR_MAX = 839"
    by (simp add: Analog_Distance_Sensor_Calibrate_def c_sdiv_def cal_macros)
qed

theorem Calibrate_sentinel_and_formula_witness:
  "sint (100 :: int32) < 2552 \<and> Analog_Distance_Sensor_Calibrate 100 = 800
   \<and> 2552 \<le> sint (3000 :: int32) \<and> sint (Analog_Distance_Sensor_Calibrate 3000) = 655"
  using Calibrate_sentinel_and_formula [of 100] Calibrate_sentinel_and_formula [of 3000]
  by simp


section \<open>Properties of the controller\<close>

lemmas macros = DESIRED_DISTANCE_def PWM_NOMINAL_def PWM_SWING_def PWM_MIN_def PWM_MAX_def

lemmas Controller_3_defs = Controller_3_def Controller_3_set_point_def Controller_3_error_def
  Controller_3_duty_def Controller_3_clamp_def Controller_3_actuate_def c_sdiv_def Let_def

lemma pwm_bounds: "sint PWM_MIN = 1500" "sint PWM_MAX = 3500"
  by (simp_all add: macros)

lemma clamp_right: "in_pwm_range (Duty_Cycle_Right (Controller_3_clamp s))"
  by (simp add: in_pwm_range_def Controller_3_clamp_def Let_def macros word_sless_alt sint_ucast16)

lemma clamp_left: "in_pwm_range (Duty_Cycle_Left (Controller_3_clamp s))"
  by (simp add: in_pwm_range_def Controller_3_clamp_def Let_def macros word_sless_alt sint_ucast16)

lemma actuate_duties:
  "in_pwm_range (Duty_Cycle_Left s) \<Longrightarrow> in_pwm_range (Duty_Cycle_Right s) \<Longrightarrow>
   list_all in_pwm_range (duties_of (Controller_3_actuate s))"
  by (simp add: Controller_3_actuate_def)

text \<open>
  Claim C1.  Whatever the three converted distances and the gain \<open>Kp\<close> are (and whatever
  the other globals hold), after a tick of \<open>Controller_3\<close> both \<open>Duty_Cycle_Left\<close> and
  \<open>Duty_Cycle_Right\<close> lie in \<open>[PWM_MIN, PWM_MAX] = [1500, 3500]\<close>, and so does every duty
  cycle handed to \<open>Motor_Forward\<close> or \<open>Motor_Backward\<close> during the tick.
\<close>

theorem Controller_3_duty_cycles_clamped:
  "in_pwm_range (Duty_Cycle_Left (fst (Controller_3 s)))
   \<and> in_pwm_range (Duty_Cycle_Right (fst (Controller_3 s)))
   \<and> list_all in_pwm_range (duties_of (snd (Controller_3 s)))
   \<and> sint PWM_MIN = 1500 \<and> sint PWM_MAX = 3500"
  by (simp add: Controller_3_def Let_def clamp_left clamp_right actuate_duties pwm_bounds)

lemma clamp_center [simp]:
  "Converted_Distance_Center (Controller_3_clamp s) = Converted_Distance_Center s"
  by (simp add: Controller_3_clamp_def Let_def)

lemma duty_center [simp]:
  "Converted_Distance_Center (Controller_3_duty s) = Converted_Distance_Center s"
  by (simp add: Controller_3_duty_def Let_def)

lemma error_center [simp]:
  "Converted_Distance_Center (Controller_3_error s) = Converted_Distance_Center s"
  by (simp add: Controller_3_error_def Let_def)

lemma set_point_center [simp]:
  "Converted_Distance_Center (Controller_3_set_point s) = Converted_Distance_Center s"
  by (simp add: Controller_3_set_point_def Let_def)

lemma Controller_3_command:
  "snd (Controller_3 s) =
     (if 250 \<le> sint (Converted_Distance_Center s) \<and> sint (Converted_Distance_Center s) < 800
      then Motor_Forward (Duty_Cycle_Left (fst (Controller_3 s))) (Duty_Cycle_Right (fst (Controller_3 s)))
      else if sint (Converted_Distance_Center s) < 200
      then Motor_Backward (Duty_Cycle_Left (fst (Controller_3 s))) (Duty_Cycle_Right (fst (Controller_3 s)))
      else Motor_Stop)"
  by (simp add: Controller_3_def Let_def Controller_3_actuate_def macros word_sless_alt word_sle_eq)

text \<open>
  Claim C2, as amended.  On every tick of \<open>Controller_3\<close> the motor call is chosen from the
  center distance alone: forward with the clamped duty cycles when the center distance is
  at least 250 mm (the desired distance itself included) and below 800 mm; backward when
  it is below 200 mm; stop otherwise.  A center distance of 150 mm gives backward, whatever
  the side distances and the duty cycles are.
\<close>

theorem Controller_3_actuation_policy:
  "snd (Controller_3 s) =
     (if 250 \<le> sint (Converted_Distance_Center s) \<and> sint (Converted_Distance_Center s) < 800
      then Motor_Forward (Duty_Cycle_Left (fst (Controller_3 s))) (Duty_Cycle_Right (fst (Controller_3 s)))
      else if sint (Converted_Distance_Center s) < 200
      then Motor_Backward (Duty_Cycle_Left (fst (Controller_3 s))) (Duty_Cycle_Right (fst (Controller_3 s)))
      else Motor_Stop)
   \<and> (sint (Converted_Distance_Center s) = 150 \<longrightarrow>
        snd (Controller_3 s) =
          Motor_Backward (Duty_Cycle_Left (fst (Controller_3 s))) (Duty_Cycle_Right (fst (Controller_3 s))))"
  by (simp add: Controller_3_command)

theorem Controller_3_actuation_policy_witness:
  "sint (Converted_Distance_Center (robot_250\<lparr>Converted_Distance_Center := 150\<rparr>)) = 150
   \<and> snd (Controller_3 (robot_250\<lparr>Converted_Distance_Center := 150\<rparr>)) = Motor_Backward 2500 2500"
  using Controller_3_actuation_policy [of "robot_250\<lparr>Converted_Distance_Center := 150\<rparr>"]
  by (simp add: robot_250_def Controller_3_defs macros)

text \<open>
  The claim as the specification states it ("greater than" the desired distance) fails at a
  center distance of exactly 250 mm: the code drives forward, the stated policy stops.
\<close>

theorem Controller_3_forward_at_desired_distance:
  "snd (Controller_3 robot_250) = Motor_Forward 2500 2500
   \<and> spec_policy (sint (Converted_Distance_Center robot_250)) 2500 2500 = Motor_Stop"
  by (simp add: robot_250_def Controller_3_defs macros spec_policy_def)

lemma set_point_left [simp]:
  "Converted_Distance_Left (Controller_3_set_point s) = Converted_Distance_Left s"
  by (simp add: Controller_3_set_point_def)

lemma set_point_right [simp]:
  "Converted_Distance_Right (Controller_3_set_point s) = Converted_Distance_Right s"
  by (simp add: Controller_3_set_point_def)

lemma error_set_point [simp]: "Set_Point (Controller_3_error s) = Set_Point s"
  by (simp add: Controller_3_error_def)

lemma duty_set_point [simp]: "Set_Point (Controller_3_duty s) = Set_Point s"
  by (simp add: Controller_3_duty_def Let_def)

lemma clamp_set_point [simp]: "Set_Point (Controller_3_clamp s) = Set_Point s"
  by (simp add: Controller_3_clamp_def Let_def)

lemma duty_error [simp]: "Error (Controller_3_duty s) = Error s"
  by (simp add: Controller_3_duty_def Let_def)

lemma clamp_error [simp]: "Error (Controller_3_clamp s) = Error s"
  by (simp add: Controller_3_clamp_def Let_def)

lemma Controller_3_Set_Point:
  "Set_Point (fst (Controller_3 s)) = Set_Point (Controller_3_set_point s)"
  by (simp add: Controller_3_def Let_def)

lemma Controller_3_Error:
  "Error (fst (Controller_3 s)) = Error (Controller_3_error (Controller_3_set_point s))"
  by (simp add: Controller_3_def Let_def)

lemma set_point_sint:
  assumes "- (2 ^ 30) \<le> sint (Converted_Distance_Left s)" "sint (Converted_Distance_Left s) < 2 ^ 30"
    and "- (2 ^ 30) \<le> sint (Converted_Distance_Right s)" "sint (Converted_Distance_Right s) < 2 ^ 30"
  shows "sint (Set_Point (Controller_3_set_point s)) =
     spec_set_point (sint (Converted_Distance_Left s)) (sint (Converted_Distance_Right s))"
proof (cases "250 < sint (Converted_Distance_Left s) \<and> 250 < sint (Converted_Distance_Right s)")
  case True
  have sum: "sint (Converted_Distance_Left s + Converted_Distance_Right s) =
      sint (Converted_Distance_Left s) + sint (Converted_Distance_Right s)"
    using assms by (intro sint32_add) simp_all
  have "sint (c_sdiv (Converted_Distance_Left s + Converted_Distance_Right s) 2) =
      (sint (Converted_Distance_Left s) + sint (Converted_Distance_Right s)) sdiv 2"
    using True by (simp add: sint_c_sdiv_2 sum)
  with True show ?thesis
    by (simp add: Controller_3_set_point_def spec_set_point_def macros word_sless_alt)
next
  case False
  then show ?thesis
    by (auto simp add: Controller_3_set_point_def spec_set_point_def macros word_sless_alt)
qed

lemma spec_set_point_range:
  assumes "l < 2 ^ 30" "r < 2 ^ 30"
  shows "250 \<le> spec_set_point l r \<and> spec_set_point l r < 2 ^ 30"
proof (cases "250 < l \<and> 250 < r")
  case True
  then have "(l + r) sdiv 2 = (l + r) div 2" by (simp add: sdiv_pos)
  moreover have "250 \<le> (l + r) div 2" using True by linarith
  moreover have "(l + r) div 2 < 2 ^ 30" using assms by simp
  ultimately show ?thesis using True by (simp add: spec_set_point_def)
next
  case False
  then show ?thesis by (auto simp add: spec_set_point_def)
qed

text \<open>
  Claim C3.  On a tick of \<open>Controller_3\<close>, if the left and the right converted distance both
  exceed 250 mm then \<open>Set_Point\<close> is their sum divided by 2 (integer division), otherwise it
  is 250; then \<open>Error\<close> is \<open>left - Set_Point\<close> if \<open>left < right\<close> and \<open>Set_Point - right\<close>
  otherwise.  The statement is about the integer values of the globals; it holds for all
  distances between \<open>-2^30\<close> and \<open>2^30\<close>, which covers everything the sampling task stores
  (the calibration returns values from 40 to 839).
\<close>

theorem Controller_3_set_point_and_error:
  assumes "- (2 ^ 30) \<le> sint (Converted_Distance_Left s)" "sint (Converted_Distance_Left s) < 2 ^ 30"
    and "- (2 ^ 30) \<le> sint (Converted_Distance_Right s)" "sint (Converted_Distance_Right s) < 2 ^ 30"
  shows "sint (Set_Point (fst (Controller_3 s))) =
           spec_set_point (sint (Converted_Distance_Left s)) (sint (Converted_Distance_Right s))
     \<and> sint (Error (fst (Controller_3 s))) =
           spec_error (sint (Converted_Distance_Left s)) (sint (Converted_Distance_Right s))
             (sint (Set_Point (fst (Controller_3 s))))"
proof -
  let ?l = "sint (Converted_Distance_Left s)" and ?r = "sint (Converted_Distance_Right s)"
  let ?s1 = "Controller_3_set_point s"
  have sp: "sint (Set_Point ?s1) = spec_set_point ?l ?r"
    using assms by (rule set_point_sint)
  have rng: "250 \<le> sint (Set_Point ?s1) \<and> sint (Set_Point ?s1) < 2 ^ 30"
    using spec_set_point_range [of ?l ?r] assms by (simp add: sp)
  have e1: "sint (Converted_Distance_Left s - Set_Point ?s1) = ?l - sint (Set_Point ?s1)"
    using assms rng by (intro sint32_diff) simp_all
  have e2: "sint (Set_Point ?s1 - Converted_Distance_Right s) = sint (Set_Point ?s1) - ?r"
    using assms rng by (intro sint32_diff) simp_all
  have "sint (Error (Controller_3_error ?s1)) = spec_error ?l ?r (sint (Set_Point ?s1))"
    by (simp add: Controller_3_error_def spec_error_def word_sless_alt e1 e2)
  then show ?thesis
    by (simp add: Controller_3_Set_Point Controller_3_Error sp)
qed

theorem Controller_3_set_point_and_error_witness:
  "sint (Set_Point (fst (Controller_3
      (robot_250\<lparr>Converted_Distance_Left := 500, Converted_Distance_Right := 500\<rparr>)))) = 500
   \<and> sint (Set_Point (fst (Controller_3
      (robot_250\<lparr>Converted_Distance_Left := 100, Converted_Distance_Right := 500\<rparr>)))) = 250
   \<and> sint (Error (fst (Controller_3
      (robot_250\<lparr>Converted_Distance_Left := 100, Converted_Distance_Right := 500\<rparr>)))) = - 150"
  using Controller_3_set_point_and_error
      [of "robot_250\<lparr>Converted_Distance_Left := 500, Converted_Distance_Right := 500\<rparr>"]
    Controller_3_set_point_and_error
      [of "robot_250\<lparr>Converted_Distance_Left := 100, Converted_Distance_Right := 500\<rparr>"]
  by (simp add: robot_250_def spec_set_point_def spec_error_def)

text \<open>
  The distances that the controller reads are in this range on every tick: they are 0
  at program start, and every run of the sampling task stores three results of the
  calibration, which lie between 40 and 839.
\<close>

lemma Sample_distances_in_range:
  assumes "Sample_Analog_Distance_Sensor Raw_A17 Raw_A14 Raw_A16 (f, g) = Inr (f', g')"
  shows "40 \<le> sint (Converted_Distance_Left g') \<and> sint (Converted_Distance_Left g') \<le> 839
    \<and> 40 \<le> sint (Converted_Distance_Center g') \<and> sint (Converted_Distance_Center g') \<le> 839
    \<and> 40 \<le> sint (Converted_Distance_Right g') \<and> sint (Converted_Distance_Right g') \<le> 839"
  using assms
  by (auto simp add: Sample_Analog_Distance_Sensor_def calibrate_range_all
      split: sum.splits prod.splits)

text \<open>
  Claim C10.  For every filtered input in the ADC range from 2552 to 16383 the calibration
  returns a value from 117 to 839, both bounds attained.  The range contains the sentinel
  800 (at 2630) and exceeds it (839 at 2552), so a computed distance cannot be told from
  the sentinel, and a center distance of 800 or more (801 to 839 included) fails the
  forward check of \<open>Controller_3\<close>, which then stops.
\<close>

theorem Calibrate_range_overlaps_sentinel:
  "(2552 \<le> sint x \<and> sint x \<le> 16383 \<longrightarrow>
      117 \<le> sint (Analog_Distance_Sensor_Calibrate x) \<and> sint (Analog_Distance_Sensor_Calibrate x) \<le> 839)
   \<and> Analog_Distance_Sensor_Calibrate 16383 = 117
   \<and> Analog_Distance_Sensor_Calibrate 2630 = 800
   \<and> Analog_Distance_Sensor_Calibrate 2552 = 839
   \<and> (800 \<le> sint (Converted_Distance_Center s) \<longrightarrow> snd (Controller_3 s) = Motor_Stop)"
proof (intro conjI impI)
  assume a: "2552 \<le> sint x \<and> sint x \<le> 16383"
  then have x: "2552 \<le> sint x" by simp
  have "(1195159::int) div 15325 \<le> 1195159 div (sint x - 1058)"
    using a by (intro zdiv_mono2) simp_all
  then have "77 \<le> 1195159 div (sint x - 1058)" by simp
  then show "117 \<le> sint (Analog_Distance_Sensor_Calibrate x)"
    by (simp add: calibrate_formula(1) [OF x])
  show "sint (Analog_Distance_Sensor_Calibrate x) \<le> 839"
    using calibrate_formula(3) [OF x] by (simp add: calibrate_formula(1) [OF x])
next
  show "Analog_Distance_Sensor_Calibrate 16383 = 117"
    by (simp add: Analog_Distance_Sensor_Calibrate_def c_sdiv_def cal_macros)
  show "Analog_Distance_Sensor_Calibrate 2630 = 800"
    by (simp add: Analog_Distance_Sensor_Calibrate_def c_sdiv_def cal_macros)
  show "Analog_Distance_Sensor_Calibrate 2552 = 839"
    by (simp add: Analog_Distance_Sensor_Calibrate_def c_sdiv_def cal_macros)
next
  assume "800 \<le> sint (Converted_Distance_Center s)"
  then show "snd (Controller_3 s) = Motor_Stop"
    by (simp add: Controller_3_command)
qed

theorem Calibrate_range_overlaps_sentinel_witness:
  "2552 \<le> sint (2600 :: int32) \<and> sint (2600 :: int32) \<le> 16383
   \<and> 117 \<le> sint (Analog_Distance_Sensor_Calibrate 2600)
   \<and> sint (Analog_Distance_Sensor_Calibrate 2600) \<le> 839
   \<and> 800 \<le> sint (Converted_Distance_Center (robot_250\<lparr>Converted_Distance_Center := 839\<rparr>))
   \<and> snd (Controller_3 (robot_250\<lparr>Converted_Distance_Center := 839\<rparr>)) = Motor_Stop"
  using Calibrate_range_overlaps_sentinel [of 2600 "robot_250\<lparr>Converted_Distance_Center := 839\<rparr>"]
  by (simp add: robot_250_def)

section \<open>Properties of the filters\<close>

subsection \<open>The initialisers and the update of the first filter\<close>

lemma LPF_Init_loop_eq:
  "LPF_Init_loop i v s = s\<lparr>x_buf := (\<lambda>j. if i \<le> j \<and> j < unat (Size s) then v else x_buf s j)\<rparr>"
proof (induction i v s rule: LPF_Init_loop.induct)
  case (1 i v s)
  show ?case
  proof (cases "i < unat (Size s)")
    case True
    have "LPF_Init_loop i v s = LPF_Init_loop (i + 1) v (s\<lparr>x_buf := (x_buf s)(i := v)\<rparr>)"
      using True by (subst LPF_Init_loop.simps) simp
    also have "\<dots> = s\<lparr>x_buf := (\<lambda>j. if i \<le> j \<and> j < unat (Size s) then v else x_buf s j)\<rparr>"
      using True by (subst "1.IH") (auto simp add: fun_eq_iff)
    finally show ?thesis .
  next
    case False
    then have "LPF_Init_loop i v s = s" by (subst LPF_Init_loop.simps) simp
    moreover have "(\<lambda>j. if i \<le> j \<and> j < unat (Size s) then v else x_buf s j) = x_buf s"
      using False by (auto simp add: fun_eq_iff)
    ultimately show ?thesis by simp
  qed
qed

lemma LPF_Init_eq:
  "LPF_Init v n s = s\<lparr>Size := min n 1024, I1 := min n 1024 - 1, LPFSum := min n 1024 * v,
      x_buf := (\<lambda>j. if j < unat (min n 1024) then v else x_buf s j)\<rparr>"
  by (simp add: LPF_Init_def Let_def LPF_Init_loop_eq min_def not_less cong: if_cong)

lemma unat_min_1024: "unat (min (n::uint32) 1024) = min (unat n) 1024"
  by (simp add: min_def word_le_nat_alt)

lemma LPF_Init_ok: "n \<noteq> 0 \<Longrightarrow> lpf_ok (LPF_Init v n s)"
  by (auto simp add: LPF_Init_eq lpf_ok_def x_len_def unat_min_1024 unat_minus_one min_def unat_gt_0 word_le_nat_alt unat_eq_zero)

lemma window_Init: "window (LPF_Init v n s) = replicate (min (unat n) 1024) v"
  by (rule nth_equalityI) (simp_all add: window_def LPF_Init_eq unat_min_1024)

lemma prev_index_less: "i < n \<Longrightarrow> prev_index n i < n"
  by (auto simp add: prev_index_def)

lemma prev_index_mod: "i < n \<Longrightarrow> prev_index n i = (i + n - 1) mod n"
proof (cases "i = 0")
  case True
  assume "i < n"
  with True show ?thesis by (simp add: prev_index_def)
next
  case False
  assume "i < n"
  have "i + n - 1 = (i - 1) + n" using False by simp
  then have "(i + n - 1) mod n = (i - 1) mod n" by simp
  with False \<open>i < n\<close> show ?thesis by (simp add: prev_index_def)
qed

lemma unat_prev_I1:
  assumes "lpf_ok s"
  shows "unat (if I1 s = 0 then Size s - 1 else I1 s - 1) = prev_index (unat (Size s)) (unat (I1 s))"
proof (cases "I1 s = 0")
  case True
  from assms have "Size s \<noteq> 0" by (auto simp add: lpf_ok_def)
  then have "unat (Size s - 1) = unat (Size s) - 1" by (simp add: unat_minus_one)
  with True show ?thesis by (simp add: prev_index_def)
next
  case False
  then have "unat (I1 s - 1) = unat (I1 s) - 1" by (simp add: unat_minus_one)
  moreover have "unat (I1 s) \<noteq> 0" using False by (simp add: unat_eq_zero)
  ultimately show ?thesis using False by (simp add: prev_index_def)
qed

lemma LPF_Calc_eq:
  assumes "lpf_ok s"
  shows "\<exists>i'. unat i' = prev_index (unat (Size s)) (unat (I1 s)) \<and> LPF_Calc d s =
    Inr ((LPFSum s + d - x_buf s (prev_index (unat (Size s)) (unat (I1 s)))) div Size s,
         s\<lparr>I1 := i',
           LPFSum := LPFSum s + d - x_buf s (prev_index (unat (Size s)) (unat (I1 s))),
           x_buf := (x_buf s)(prev_index (unat (Size s)) (unat (I1 s)) := d)\<rparr>)"
proof -
  from assms have sz: "Size s \<noteq> 0" and le: "unat (Size s) \<le> 1024" and lt: "unat (I1 s) < unat (Size s)"
    by (auto simp add: lpf_ok_def x_len_def)
  have p: "prev_index (unat (Size s)) (unat (I1 s)) < unat (Size s)"
    using lt by (rule prev_index_less)
  then have b: "\<not> x_len \<le> prev_index (unat (Size s)) (unat (I1 s))"
    using le by (simp add: x_len_def)
  show ?thesis
  proof (cases "I1 s = 0")
    case True
    with unat_prev_I1 [OF assms] have u: "unat (Size s - 1) = prev_index (unat (Size s)) (unat (I1 s))"
      by simp
    then show ?thesis using True sz b
      by (intro exI [of _ "Size s - 1"]) (simp add: LPF_Calc_def Let_def)
  next
    case False
    with unat_prev_I1 [OF assms] have u: "unat (I1 s - 1) = prev_index (unat (Size s)) (unat (I1 s))"
      by simp
    then show ?thesis using False sz b
      by (intro exI [of _ "I1 s - 1"]) (simp add: LPF_Calc_def Let_def)
  qed
qed

lemma rotate_step:
  assumes "i < length w"
  shows "rotate (prev_index (length w) i) (w[prev_index (length w) i := d]) = d # butlast (rotate i w)"
proof (rule nth_equalityI)
  show "length (rotate (prev_index (length w) i) (w[prev_index (length w) i := d])) = length (d # butlast (rotate i w))"
    using assms by simp
next
  fix j
  assume "j < length (rotate (prev_index (length w) i) (w[prev_index (length w) i := d]))"
  then have j: "j < length w" by simp
  let ?n = "length w" and ?p = "prev_index (length w) i"
  have p: "?p < ?n" using assms by (rule prev_index_less)
  have lhs: "rotate ?p (w[?p := d]) ! j = (w[?p := d]) ! ((?p + j) mod ?n)"
    using j by (simp add: nth_rotate)
  show "rotate ?p (w[?p := d]) ! j = (d # butlast (rotate i w)) ! j"
  proof (cases j)
    case 0
    have "(w[?p := d]) ! ((?p + 0) mod ?n) = d" using p by simp
    then show ?thesis using 0 lhs by simp
  next
    case (Suc k)
    have k: "k < ?n - 1" using j Suc by simp
    have ne: "(?p + j) mod ?n \<noteq> ?p"
    proof (cases "?p + j < ?n")
      case True
      then show ?thesis using Suc by simp
    next
      case False
      then have "(?p + j) mod ?n = (?p + j - ?n) mod ?n" by (simp add: mod_if)
      also have "\<dots> = ?p + j - ?n" using p j by simp
      finally show ?thesis using j False by simp
    qed
    have eq: "(?p + j) mod ?n = (i + k) mod ?n"
    proof (cases "i = 0")
      case True
      then have "?p + j = ?n + k" using Suc j by (simp add: prev_index_def)
      then show ?thesis using True by simp
    next
      case False
      then have "?p + j = i + k" using Suc by (simp add: prev_index_def)
      then show ?thesis by simp
    qed
    have "rotate ?p (w[?p := d]) ! j = w ! ((i + k) mod ?n)"
      using ne by (simp add: lhs eq [symmetric])
    moreover have "(d # butlast (rotate i w)) ! j = w ! ((i + k) mod ?n)"
      using Suc k by (simp add: nth_butlast nth_rotate)
    ultimately show ?thesis by simp
  qed
qed

lemma LPF_Init2_loop_eq:
  "LPF_Init2_loop i v s = s\<lparr>x2_buf := (\<lambda>j. if i \<le> j \<and> j < unat (2 * Size s) then v else x2_buf s j)\<rparr>"
proof (induction i v s rule: LPF_Init2_loop.induct)
  case (1 i v s)
  show ?case
  proof (cases "i < unat (2 * Size s)")
    case True
    have "LPF_Init2_loop i v s = LPF_Init2_loop (i + 1) v (s\<lparr>x2_buf := (x2_buf s)(i := v)\<rparr>)"
      using True by (subst LPF_Init2_loop.simps) simp
    also have "\<dots> = s\<lparr>x2_buf := (\<lambda>j. if i \<le> j \<and> j < unat (2 * Size s) then v else x2_buf s j)\<rparr>"
      using True by (subst "1.IH") (auto simp add: fun_eq_iff)
    finally show ?thesis .
  next
    case False
    then have "LPF_Init2_loop i v s = s" by (subst LPF_Init2_loop.simps) simp
    moreover have "(\<lambda>j. if i \<le> j \<and> j < unat (2 * Size s) then v else x2_buf s j) = x2_buf s"
      using False by (auto simp add: fun_eq_iff)
    ultimately show ?thesis by simp
  qed
qed

lemma LPF_Init3_loop_eq:
  "LPF_Init3_loop i v s = s\<lparr>x3_buf := (\<lambda>j. if i \<le> j \<and> j < unat (2 * Size s) then v else x3_buf s j)\<rparr>"
proof (induction i v s rule: LPF_Init3_loop.induct)
  case (1 i v s)
  show ?case
  proof (cases "i < unat (2 * Size s)")
    case True
    have "LPF_Init3_loop i v s = LPF_Init3_loop (i + 1) v (s\<lparr>x3_buf := (x3_buf s)(i := v)\<rparr>)"
      using True by (subst LPF_Init3_loop.simps) simp
    also have "\<dots> = s\<lparr>x3_buf := (\<lambda>j. if i \<le> j \<and> j < unat (2 * Size s) then v else x3_buf s j)\<rparr>"
      using True by (subst "1.IH") (auto simp add: fun_eq_iff)
    finally show ?thesis .
  next
    case False
    then have "LPF_Init3_loop i v s = s" by (subst LPF_Init3_loop.simps) simp
    moreover have "(\<lambda>j. if i \<le> j \<and> j < unat (2 * Size s) then v else x3_buf s j) = x3_buf s"
      using False by (auto simp add: fun_eq_iff)
    ultimately show ?thesis by simp
  qed
qed

lemma LPF_Init2_eq:
  "LPF_Init2 v n s = s\<lparr>Size := min n 512, Pt2 := Some 0, LPFSum2 := min n 512 * v,
      x2_buf := (\<lambda>j. if j < unat (2 * min n 512) then v else x2_buf s j)\<rparr>"
  by (simp add: LPF_Init2_def Let_def LPF_Init2_loop_eq min_def not_less cong: if_cong)

lemma LPF_Init3_eq:
  "LPF_Init3 v n s = s\<lparr>Size := min n 512, Pt3 := Some 0, LPFSum3 := min n 512 * v,
      x3_buf := (\<lambda>j. if j < unat (2 * min n 512) then v else x3_buf s j)\<rparr>"
  by (simp add: LPF_Init3_def Let_def LPF_Init3_loop_eq min_def not_less cong: if_cong)

subsection \<open>The first filter refines the moving average\<close>

lemma sum_list_rotate: "sum_list (rotate k xs) = sum_list (xs :: uint32 list)"
proof -
  have "sum_list (take (k mod length xs) xs) + sum_list (drop (k mod length xs) xs) = sum_list xs"
    by (metis sum_list_append append_take_drop_id)
  then show ?thesis by (simp add: rotate_drop_take add.commute)
qed

lemma sum_list_update_word:
  "k < length xs \<Longrightarrow> sum_list (xs[k := v]) = sum_list xs + v - xs ! (k :: nat)" for xs :: "uint32 list"
proof (induction xs arbitrary: k)
  case Nil
  then show ?case by simp
next
  case (Cons a xs)
  then show ?case by (cases k) simp_all
qed

lemma length_window [simp]: "length (window s) = unat (Size s)"
  by (simp add: window_def)

lemma length_history [simp]: "length (history s) = unat (Size s)"
  by (simp add: history_def)

lemma sum_list_history: "sum_list (history s) = sum_list (window s)"
  by (simp add: history_def sum_list_rotate)

lemma window_update:
  "p < unat (Size s) \<Longrightarrow>
   window (s\<lparr>I1 := i, LPFSum := t, x_buf := (x_buf s)(p := d)\<rparr>) = (window s)[p := d]"
  by (rule nth_equalityI) (simp_all add: window_def nth_list_update)

lemma LPF_Calc_step:
  assumes "lpf_inv s"
  shows "\<exists>s'. LPF_Calc d s = Inr (sum_list (d # butlast (history s)) div Size s, s')
      \<and> lpf_inv s' \<and> Size s' = Size s \<and> history s' = d # butlast (history s)
      \<and> unat (I1 s') = prev_index (unat (Size s)) (unat (I1 s))
      \<and> window s' = (window s)[prev_index (unat (Size s)) (unat (I1 s)) := d]"
proof -
  from assms have ok: "lpf_ok s" and sum: "LPFSum s = sum_list (window s)"
    by (simp_all add: lpf_inv_def)
  let ?n = "unat (Size s)" and ?p = "prev_index (unat (Size s)) (unat (I1 s))"
  from LPF_Calc_eq [OF ok, of d] obtain i' where i': "unat i' = ?p"
    and c: "LPF_Calc d s = Inr ((LPFSum s + d - x_buf s ?p) div Size s,
         s\<lparr>I1 := i', LPFSum := LPFSum s + d - x_buf s ?p, x_buf := (x_buf s)(?p := d)\<rparr>)"
    by blast
  let ?s' = "s\<lparr>I1 := i', LPFSum := LPFSum s + d - x_buf s ?p, x_buf := (x_buf s)(?p := d)\<rparr>"
  from ok have i: "unat (I1 s) < ?n" by (simp add: lpf_ok_def)
  then have p: "?p < ?n" by (rule prev_index_less)
  have w: "window ?s' = (window s)[?p := d]" using p by (rule window_update)
  have ok': "lpf_ok ?s'" using ok p i' by (simp add: lpf_ok_def)
  have sum': "LPFSum ?s' = sum_list (window ?s')"
  proof -
    have "LPFSum ?s' = LPFSum s + d - x_buf s ?p" by simp
    also have "\<dots> = sum_list (window s) + d - window s ! ?p"
      using p by (simp add: sum window_def)
    also have "\<dots> = sum_list ((window s)[?p := d])"
      using p by (simp add: sum_list_update_word)
    also have "\<dots> = sum_list (window ?s')" by (simp only: w)
    finally show ?thesis .
  qed
  have "rotate ?p ((window s)[?p := d]) = d # butlast (rotate (unat (I1 s)) (window s))"
    using rotate_step [of "unat (I1 s)" "window s" d] i by simp
  then have h: "history ?s' = d # butlast (history s)"
    unfolding history_def w using i' by simp
  have e: "LPFSum s + d - x_buf s ?p = sum_list (d # butlast (history s))"
  proof -
    have "LPFSum s + d - x_buf s ?p = LPFSum ?s'" by simp
    also have "\<dots> = sum_list (window ?s')" by (rule sum')
    also have "\<dots> = sum_list (history ?s')" by (rule sum_list_history [symmetric])
    also have "\<dots> = sum_list (d # butlast (history s))" by (simp only: h)
    finally show ?thesis .
  qed
  have "LPF_Calc d s = Inr (sum_list (d # butlast (history s)) div Size s, ?s')"
    using c by (simp only: e)
  moreover have "lpf_inv ?s'" using ok' sum' by (simp add: lpf_inv_def)
  ultimately show ?thesis using h i' w by (intro exI [of _ ?s']) simp
qed

lemma LPF_Calc_seq_avg:
  "lpf_inv s \<Longrightarrow> \<exists>s'. LPF_Calc_seq ds s = Inr (avg_seq (Size s) (history s) ds, s') \<and> lpf_inv s' \<and> Size s' = Size s"
proof (induction ds arbitrary: s)
  case Nil
  then show ?case by simp
next
  case (Cons d ds)
  from LPF_Calc_step [OF Cons.prems, of d] obtain s1 where
    c: "LPF_Calc d s = Inr (sum_list (d # butlast (history s)) div Size s, s1)"
    and inv: "lpf_inv s1" and sz: "Size s1 = Size s" and h: "history s1 = d # butlast (history s)"
    by blast
  from Cons.IH [OF inv] obtain s2 where
    r: "LPF_Calc_seq ds s1 = Inr (avg_seq (Size s1) (history s1) ds, s2)" and inv2: "lpf_inv s2"
    and sz2: "Size s2 = Size s1"
    by blast
  show ?case using c r inv2 sz sz2 h by simp
qed

lemma LPF_Init_inv: "n \<noteq> 0 \<Longrightarrow> lpf_inv (LPF_Init v n s)"
proof -
  assume n: "n \<noteq> 0"
  have "LPFSum (LPF_Init v n s) = min n 1024 * v" by (simp add: LPF_Init_eq)
  also have "\<dots> = of_nat (min (unat n) 1024) * v"
    by (simp add: unat_min_1024 [symmetric])
  also have "\<dots> = sum_list (window (LPF_Init v n s))"
    by (simp add: window_Init sum_list_replicate)
  finally show ?thesis using LPF_Init_ok [OF n] by (simp add: lpf_inv_def)
qed

lemma rotate_replicate: "rotate k (replicate n a) = replicate n a"
  by (induction k) simp_all

lemma history_Init: "history (LPF_Init v n s) = replicate (min (unat n) 1024) v"
  by (simp add: history_def window_Init rotate_replicate)

lemma Size_Init: "Size (LPF_Init v n s) = min n 1024"
  by (simp add: LPF_Init_eq)

subsection \<open>Constant input\<close>

lemma word_div_mult_self:
  assumes "n \<noteq> 0" "unat n * unat v < 2 ^ 32"
  shows "(n * v) div n = (v :: uint32)"
proof -
  have "unat (n * v) = unat n * unat v"
    using assms(2) unat_mult_lem [of n v] by simp
  moreover have "0 < unat n" using assms(1) by (simp add: unat_gt_0)
  ultimately have "unat ((n * v) div n) = unat v" by (simp add: unat_div)
  then show ?thesis by (simp add: word_unat_eq_iff)
qed

lemma word_div_mult_self_overflow:
  assumes "n \<noteq> 0" "2 ^ 32 \<le> unat n * unat v"
  shows "(n * v) div n < (v :: uint32)"
proof -
  have pos: "0 < unat n" using assms(1) by (simp add: unat_gt_0)
  have "unat (n * v) = (unat n * unat v) mod 2 ^ 32" by (simp add: unat_word_ariths)
  also have "\<dots> < 2 ^ 32" by simp
  finally have "unat (n * v) < unat v * unat n" using assms(2) by (simp add: mult.commute)
  then have "unat (n * v) div unat n < unat v" using pos by (simp add: div_less_iff_less_mult)
  then show ?thesis by (simp add: word_less_nat_alt unat_div)
qed

lemma butlast_replicate_Suc: "butlast (replicate (Suc k) a) = replicate k a"
proof -
  have "replicate (Suc k) a = replicate k a @ [a]" by (simp add: replicate_append_same)
  then show ?thesis by (simp only: butlast_snoc)
qed

lemma Cons_butlast_replicate: "0 < m \<Longrightarrow> a # butlast (replicate m a) = replicate m a"
proof (cases m)
  case 0
  assume "0 < m"
  with 0 show ?thesis by simp
next
  case (Suc k)
  then show ?thesis by (simp only: butlast_replicate_Suc) simp
qed

lemma avg_seq_const:
  assumes "n \<noteq> 0" "unat n * unat v < 2 ^ 32"
  shows "avg_seq n (replicate (unat n) v) (replicate k v) = replicate k v"
proof (induction k)
  case 0
  then show ?case by simp
next
  case (Suc k)
  have pos: "0 < unat n" using assms(1) by (simp add: unat_gt_0)
  have h: "v # butlast (replicate (unat n) v) = replicate (unat n) v"
    using pos by (rule Cons_butlast_replicate)
  have "sum_list (replicate (unat n) v) = n * v"
    by (simp add: sum_list_replicate)
  then have "sum_list (replicate (unat n) v) div n = v"
    using assms by (simp add: word_div_mult_self)
  then show ?case using Suc
    by (simp only: replicate_Suc avg_seq.simps h)
qed

text \<open>
  Claim C5, as amended.  For every depth \<open>N\<close> of at least 2 and every seed \<open>S\<close> for which
  \<open>min N 1024 * S\<close> is below \<open>2^32\<close> (the running sum does not overflow), after
  \<open>LPF_Init S N\<close> every one of any number \<open>k\<close> of calls \<open>LPF_Calc S\<close> returns exactly \<open>S\<close>;
  with \<open>k = N\<close> these are the \<open>N\<close> calls of the claim.
\<close>

theorem LPF_constant_input_fixed_point:
  assumes "2 \<le> unat N" and "unat (min N 1024) * unat S < 2 ^ 32"
  shows "map_sum id fst (LPF_Calc_seq (replicate k S) (LPF_Init S N s)) = Inr (replicate k S)"
proof -
  from assms(1) have N: "N \<noteq> 0" by auto
  then have m: "min N 1024 \<noteq> 0" by (simp add: min_def)
  from LPF_Calc_seq_avg [OF LPF_Init_inv [OF N], of "replicate k S" S s] obtain s' where
    "LPF_Calc_seq (replicate k S) (LPF_Init S N s) =
       Inr (avg_seq (Size (LPF_Init S N s)) (history (LPF_Init S N s)) (replicate k S), s')"
    by blast
  moreover have "avg_seq (Size (LPF_Init S N s)) (history (LPF_Init S N s)) (replicate k S) = replicate k S"
    using avg_seq_const [OF m assms(2), of k]
    by (simp add: Size_Init history_Init unat_min_1024)
  ultimately show ?thesis by simp
qed

theorem LPF_constant_input_fixed_point_witness:
  "map_sum id fst (LPF_Calc_seq (replicate 4 10) (LPF_Init 10 4 lpf_reset)) = Inr (replicate 4 10)"
  using LPF_constant_input_fixed_point [of 4 10 4 lpf_reset] by simp

text \<open>
  For every seed the claim fails: with the seed \<open>2^31\<close> and depth 2 the running sum wraps
  around to 0, and both calls return 0.
\<close>

theorem LPF_constant_input_overflow:
  "map_sum id fst (LPF_Calc_seq (replicate 2 2147483648) (LPF_Init 2147483648 2 lpf_reset)) = Inr [0, 0]"
  by code_simp

text \<open>The bound is exact: whenever the product overflows, already the first call returns less than the seed.\<close>

lemma LPF_constant_input_overflow_always:
  assumes "N \<noteq> 0" and "2 ^ 32 \<le> unat (min N 1024) * unat S"
  shows "\<exists>y. map_sum id fst (LPF_Calc_seq [S] (LPF_Init S N s)) = Inr [y] \<and> y < S"
proof -
  from assms(1) have m: "min N 1024 \<noteq> 0" by (simp add: min_def)
  then have pos: "0 < unat (min N 1024)" by (simp add: unat_gt_0)
  from LPF_Calc_seq_avg [OF LPF_Init_inv [OF assms(1)], of "[S]" S s] obtain s' where
    "LPF_Calc_seq [S] (LPF_Init S N s) =
       Inr (avg_seq (Size (LPF_Init S N s)) (history (LPF_Init S N s)) [S], s')"
    by blast
  moreover have "S # butlast (replicate (unat (min N 1024)) S) = replicate (unat (min N 1024)) S"
    using pos by (rule Cons_butlast_replicate)
  then have "avg_seq (Size (LPF_Init S N s)) (history (LPF_Init S N s)) [S] = [(min N 1024 * S) div min N 1024]"
    by (simp add: Size_Init history_Init unat_min_1024 [symmetric] sum_list_replicate del: sum_list.Cons)
  moreover have "(min N 1024 * S) div min N 1024 < S"
    using m assms(2) by (rule word_div_mult_self_overflow)
  ultimately show ?thesis by simp
qed

subsection \<open>Step input\<close>

lemma length_ramp [simp]: "length (ramp n v i) = n"
  by (simp add: ramp_def)

lemma ramp_0: "ramp n v 0 = replicate n 0"
  by (simp add: ramp_def)

lemma ramp_step: "0 < n \<Longrightarrow> v # butlast (ramp n v i) = ramp n v (Suc i)"
proof (cases "i < n")
  case True
  assume "0 < n"
  from True obtain k where k: "n - i = Suc k" by (cases "n - i") simp_all
  have "butlast (ramp n v i) = replicate i v @ butlast (replicate (Suc k) 0)"
    using True k by (simp add: ramp_def butlast_append del: replicate_Suc)
  also have "\<dots> = replicate i v @ replicate k 0" by (simp only: butlast_replicate_Suc)
  finally have "v # butlast (ramp n v i) = replicate (Suc i) v @ replicate k 0" by simp
  moreover have "ramp n v (Suc i) = replicate (Suc i) v @ replicate k 0"
    using True k by (simp add: ramp_def min_def)
  ultimately show ?thesis by simp
next
  case False
  assume "0 < n"
  with False show ?thesis
    using Cons_butlast_replicate [of n v] by (simp add: ramp_def min_def)
qed

lemma sum_list_ramp: "sum_list (ramp n v i) = of_nat (min i n) * v"
  by (simp add: ramp_def sum_list_replicate)

lemma avg_seq_ramp:
  "0 < m \<Longrightarrow> avg_seq n (ramp m v i) (replicate k v) =
     map (\<lambda>j. (of_nat (min j m) * v) div n) [Suc i..<Suc (i + k)]"
proof (induction k arbitrary: i)
  case 0
  then show ?case by simp
next
  case (Suc k)
  have "avg_seq n (ramp m v i) (replicate (Suc k) v) =
      (sum_list (ramp m v (Suc i)) div n) # avg_seq n (ramp m v (Suc i)) (replicate k v)"
    using ramp_step [OF Suc.prems, of v i] by simp
  also have "\<dots> = ((of_nat (min (Suc i) m) * v) div n) #
      map (\<lambda>j. (of_nat (min j m) * v) div n) [Suc (Suc i)..<Suc (Suc i + k)]"
    using Suc.IH [OF Suc.prems, of "Suc i"] by (simp only: sum_list_ramp)
  also have "\<dots> = map (\<lambda>j. (of_nat (min j m) * v) div n) [Suc i..<Suc (i + Suc k)]"
    by (simp add: upt_rec [of "Suc i"] del: upt_Suc)
  finally show ?case .
qed

lemma unat_ramp_output:
  assumes "0 < m" "m = unat n" "m * unat v < 2 ^ 32"
  shows "unat ((of_nat (min j m) * v) div (n :: uint32)) = (min j m * unat v) div m"
proof -
  have "min j m * unat v \<le> m * unat v" by simp
  then have b: "min j m * unat v < 2 ^ 32" using assms(3) by linarith
  have "min j m \<le> unat n" using assms(2) by simp
  then have u: "unat (of_nat (min j m) :: uint32) = min j m" by (rule le_unat_uoi)
  have "unat (of_nat (min j m) * v :: uint32) = min j m * unat v"
    using b u unat_mult_lem [of "of_nat (min j m) :: uint32" v] by simp
  then show ?thesis using assms(2) by (simp add: unat_div)
qed

lemma ramp_outputs_sorted:
  assumes "0 < m" "m = unat n" "m * unat v < 2 ^ 32"
  shows "sorted (map (\<lambda>j. (of_nat (min j m) * v) div (n :: uint32)) [a..<b])"
proof -
  have "sorted_wrt (\<lambda>x y. (of_nat (min x m) * v) div n \<le> (of_nat (min y m) * v) div n) [a..<b]"
  proof (rule sorted_wrt_mono_rel [of "[a..<b]" "(\<le>)"])
    fix x y :: nat
    assume "x \<le> y"
    then have "min x m * unat v \<le> min y m * unat v"
      by (intro mult_le_mono1) (simp add: min_def)
    then have "(min x m * unat v) div m \<le> (min y m * unat v) div m"
      by (rule div_le_mono)
    then show "(of_nat (min x m) * v) div n \<le> (of_nat (min y m) * v) div n"
      by (simp add: word_le_nat_alt unat_ramp_output [OF assms])
  next
    show "sorted_wrt (\<le>) [a..<b]" by (rule sorted_upt)
  qed
  then show ?thesis by (simp add: sorted_map)
qed

text \<open>
  Claim C6, as amended.  For every depth \<open>N\<close> of at least 2 and every constant \<open>V\<close> for
  which \<open>min N 1024 * V\<close> is below \<open>2^32\<close>, after \<open>LPF_Init 0 N\<close> the \<open>N\<close> calls \<open>LPF_Calc V\<close>
  all return, the \<open>N\<close>-th returns exactly \<open>V\<close>, and the \<open>N\<close> returned values are
  non-decreasing.
\<close>

theorem LPF_step_response:
  assumes "2 \<le> unat N" and "unat (min N 1024) * unat V < 2 ^ 32"
  shows "\<exists>ys. map_sum id fst (LPF_Calc_seq (replicate (unat N) V) (LPF_Init 0 N s)) = Inr ys
     \<and> length ys = unat N \<and> last ys = V \<and> sorted ys"
proof -
  let ?m = "min (unat N) 1024" and ?n = "min N 1024"
  let ?ys = "map (\<lambda>j. (of_nat (min j ?m) * V) div ?n) [Suc 0..<Suc (0 + unat N)]"
  from assms(1) have N: "N \<noteq> 0" by auto
  have m: "0 < ?m" using assms(1) by simp
  have mn: "?m = unat ?n" by (simp add: unat_min_1024)
  have ov: "?m * unat V < 2 ^ 32" using assms(2) by (simp add: unat_min_1024)
  from LPF_Calc_seq_avg [OF LPF_Init_inv [OF N], of "replicate (unat N) V" 0 s] obtain s' where
    "LPF_Calc_seq (replicate (unat N) V) (LPF_Init 0 N s) =
       Inr (avg_seq (Size (LPF_Init 0 N s)) (history (LPF_Init 0 N s)) (replicate (unat N) V), s')"
    by blast
  moreover have "avg_seq (Size (LPF_Init 0 N s)) (history (LPF_Init 0 N s)) (replicate (unat N) V) = ?ys"
    using avg_seq_ramp [OF m, of ?n V 0 "unat N"]
    by (simp only: Size_Init history_Init ramp_0)
  ultimately have out: "map_sum id fst (LPF_Calc_seq (replicate (unat N) V) (LPF_Init 0 N s)) = Inr ?ys"
    by simp
  have len: "length ?ys = unat N" by simp
  have "last ?ys = (of_nat (min (unat N) ?m) * V) div ?n"
    using N by (simp add: last_map unat_gt_0 del: upt_Suc) 
  also have "unat \<dots> = (min (unat N) ?m * unat V) div ?m"
    using unat_ramp_output [OF m mn ov] .
  finally have "unat (last ?ys) = unat V" using m by simp
  then have last: "last ?ys = V" by (simp add: word_unat_eq_iff)
  have "sorted ?ys" using ramp_outputs_sorted [OF m mn ov] .
  with out len last show ?thesis by blast
qed

theorem LPF_step_response_witness:
  "\<exists>ys. map_sum id fst (LPF_Calc_seq (replicate (unat (4 :: uint32)) 10) (LPF_Init 0 4 lpf_reset)) = Inr ys
     \<and> length ys = unat (4 :: uint32) \<and> last ys = 10 \<and> sorted ys"
  using LPF_step_response [of 4 10 lpf_reset] by simp

text \<open>
  For every \<open>V\<close> the claim fails: from seed 0 with depth 2, two updates with \<open>2^31\<close> return
  \<open>2^30\<close> and then 0, since the running sum wraps around.
\<close>

theorem LPF_step_response_overflow:
  "map_sum id fst (LPF_Calc_seq (replicate 2 2147483648) (LPF_Init 0 2 lpf_reset)) = Inr [1073741824, 0]"
  by code_simp

text \<open>The bound is exact: whenever the product overflows, the last of the \<open>N\<close> calls returns less than \<open>V\<close>.\<close>

lemma LPF_step_response_overflow_always:
  assumes "N \<noteq> 0" and "2 ^ 32 \<le> unat (min N 1024) * unat V"
  shows "\<exists>ys. map_sum id fst (LPF_Calc_seq (replicate (unat N) V) (LPF_Init 0 N s)) = Inr ys
     \<and> length ys = unat N \<and> last ys < V"
proof -
  let ?m = "min (unat N) 1024" and ?n = "min N 1024"
  let ?ys = "map (\<lambda>j. (of_nat (min j ?m) * V) div ?n) [Suc 0..<Suc (0 + unat N)]"
  from assms(1) have n: "?n \<noteq> 0" by (simp add: min_def)
  from assms(1) have Npos: "0 < unat N" by (simp add: unat_gt_0)
  then have m: "0 < ?m" by simp
  from LPF_Calc_seq_avg [OF LPF_Init_inv [OF assms(1)], of "replicate (unat N) V" 0 s] obtain s' where
    "LPF_Calc_seq (replicate (unat N) V) (LPF_Init 0 N s) =
       Inr (avg_seq (Size (LPF_Init 0 N s)) (history (LPF_Init 0 N s)) (replicate (unat N) V), s')"
    by blast
  moreover have "avg_seq (Size (LPF_Init 0 N s)) (history (LPF_Init 0 N s)) (replicate (unat N) V) = ?ys"
    using avg_seq_ramp [OF m, of ?n V 0 "unat N"]
    by (simp only: Size_Init history_Init ramp_0)
  ultimately have out: "map_sum id fst (LPF_Calc_seq (replicate (unat N) V) (LPF_Init 0 N s)) = Inr ?ys"
    by simp
  have "last ?ys = (of_nat (min (unat N) ?m) * V) div ?n"
    using Npos by (simp add: last_map del: upt_Suc)
  also have "min (unat N) ?m = unat ?n"
    by (simp add: unat_min_1024)
  also have "of_nat (unat ?n) = ?n" by simp
  finally have "last ?ys = (?n * V) div ?n" .
  then have "last ?ys < V"
    using word_div_mult_self_overflow [OF n assms(2)] by simp
  with out show ?thesis by (intro exI [of _ ?ys]) simp
qed

subsection \<open>The running sum and the bounds of the output\<close>

lemma sum_list_of_nat_unat: "sum_list ws = (of_nat (sum_list (map unat ws)) :: uint32)"
  by (induction ws) simp_all

lemma unat_sum_list_no_overflow:
  assumes "sum_list (map unat ws) < 2 ^ 32"
  shows "unat (sum_list ws :: uint32) = sum_list (map unat ws)"
proof -
  have "unat (sum_list ws) = sum_list (map unat ws) mod 2 ^ 32"
    by (subst sum_list_of_nat_unat) (simp add: unat_of_nat)
  then show ?thesis using assms by simp
qed

lemma sum_list_bounds:
  fixes ns :: "nat list"
  shows "(\<And>k. k \<in> set ns \<Longrightarrow> lo \<le> k) \<Longrightarrow> length ns * lo \<le> sum_list ns"
    and "(\<And>k. k \<in> set ns \<Longrightarrow> k \<le> hi) \<Longrightarrow> sum_list ns \<le> length ns * hi"
proof (induction ns)
  case Nil
  { case 1 show ?case by simp }
  { case 2 show ?case by simp }
next
  case (Cons a ns)
  { case 1
    then have "lo \<le> a" and "length ns * lo \<le> sum_list ns" using Cons.IH(1) by simp_all
    then show ?case by simp }
  { case 2
    then have "a \<le> hi" and "sum_list ns \<le> length ns * hi" using Cons.IH(2) by simp_all
    then show ?case by simp }
qed

lemma average_between:
  fixes ws :: "uint32 list"
  assumes "ws \<noteq> []" "sum_list (map unat ws) < 2 ^ 32" "unat n = length ws"
  shows "Min (set ws) \<le> sum_list ws div n \<and> sum_list ws div n \<le> Max (set ws)"
proof -
  let ?t = "sum_list (map unat ws)"
  have pos: "0 < length ws" using assms(1) by simp
  have u: "unat (sum_list ws div n) = ?t div length ws"
    using unat_sum_list_no_overflow [OF assms(2)] assms(3) by (simp add: unat_div)
  have "length (map unat ws) * unat (Min (set ws)) \<le> ?t"
  proof (rule sum_list_bounds(1))
    fix k assume "k \<in> set (map unat ws)"
    then obtain w where "w \<in> set ws" "k = unat w" by auto
    then show "unat (Min (set ws)) \<le> k" by (simp add: word_le_nat_alt [symmetric])
  qed
  then have lo: "unat (Min (set ws)) \<le> ?t div length ws"
    using pos by (simp add: less_eq_div_iff_mult_less_eq mult.commute)
  have "?t \<le> length (map unat ws) * unat (Max (set ws))"
  proof (rule sum_list_bounds(2))
    fix k assume "k \<in> set (map unat ws)"
    then obtain w where "w \<in> set ws" "k = unat w" by auto
    then show "k \<le> unat (Max (set ws))" by (simp add: word_le_nat_alt [symmetric])
  qed
  then have "?t div length ws \<le> (length ws * unat (Max (set ws))) div length ws"
    by (simp only: length_map div_le_mono)
  then have hi: "?t div length ws \<le> unat (Max (set ws))" using pos by simp
  show ?thesis using lo hi by (simp add: word_le_nat_alt u)
qed

lemma chan_window_Ch1: "chan_window Ch1 s = window s"
  by (simp add: chan_window_def window_def)

lemma chan_inv_Ch1: "chan_inv Ch1 s = lpf_inv s"
  by (auto simp add: chan_inv_def lpf_inv_def lpf_ok_def chan_window_Ch1 x_len_def
      word_le_nat_alt word_less_nat_alt)

lemma unat_min_512: "unat (min (n::uint32) 512) = min (unat n) 512"
  by (simp add: min_def word_le_nat_alt)

lemma unat_double_min_512: "unat (2 * min (n::uint32) 512) = 2 * min (unat n) 512"
proof -
  have "unat (2 :: uint32) * unat (min n 512) < 2 ^ 32" by (simp add: unat_min_512)
  then show ?thesis using unat_mult_lem [of "2 :: uint32" "min n 512"] by (simp add: unat_min_512)
qed

lemma LPF_Init2_inv: "n \<noteq> 0 \<Longrightarrow> chan_inv Ch2 (LPF_Init2 v n s)"
proof -
  assume n: "n \<noteq> 0"
  have w: "chan_window Ch2 (LPF_Init2 v n s) = replicate (min (unat n) 512) v"
    by (rule nth_equalityI)
      (auto simp add: chan_window_def LPF_Init2_eq unat_min_512 unat_double_min_512)
  have "chan_sum Ch2 (LPF_Init2 v n s) = min n 512 * v" by (simp add: LPF_Init2_eq)
  also have "\<dots> = of_nat (min (unat n) 512) * v" by (simp add: unat_min_512 [symmetric])
  also have "\<dots> = sum_list (chan_window Ch2 (LPF_Init2 v n s))"
    by (simp add: w sum_list_replicate)
  finally have sum: "chan_sum Ch2 (LPF_Init2 v n s) = sum_list (chan_window Ch2 (LPF_Init2 v n s))" .
  have sz: "Size (LPF_Init2 v n s) = min n 512" by (simp add: LPF_Init2_eq)
  have pos: "0 < min n 512" using n by (simp add: min_def word_neq_0_conv)
  then have upos: "0 < unat (min n 512)" by (simp add: word_less_nat_alt)
  have idx: "chan_idx Ch2 (LPF_Init2 v n s) = Some 0" by (simp add: LPF_Init2_eq)
  show ?thesis
    unfolding chan_inv_def
  proof (intro conjI)
    show "0 < Size (LPF_Init2 v n s)" using pos by (simp only: sz)
    show "Size (LPF_Init2 v n s) \<le> chan_max Ch2" by (simp add: sz)
    show "case chan_idx Ch2 (LPF_Init2 v n s) of None \<Rightarrow> False
        | Some i \<Rightarrow> i < unat (Size (LPF_Init2 v n s))"
      using upos by (simp only: idx sz option.case)
    show "chan_sum Ch2 (LPF_Init2 v n s) = sum_list (chan_window Ch2 (LPF_Init2 v n s))"
      by (rule sum)
  qed
qed

lemma LPF_Init3_inv: "n \<noteq> 0 \<Longrightarrow> chan_inv Ch3 (LPF_Init3 v n s)"
proof -
  assume n: "n \<noteq> 0"
  have w: "chan_window Ch3 (LPF_Init3 v n s) = replicate (min (unat n) 512) v"
    by (rule nth_equalityI)
      (auto simp add: chan_window_def LPF_Init3_eq unat_min_512 unat_double_min_512)
  have "chan_sum Ch3 (LPF_Init3 v n s) = min n 512 * v" by (simp add: LPF_Init3_eq)
  also have "\<dots> = of_nat (min (unat n) 512) * v" by (simp add: unat_min_512 [symmetric])
  also have "\<dots> = sum_list (chan_window Ch3 (LPF_Init3 v n s))"
    by (simp add: w sum_list_replicate)
  finally have sum: "chan_sum Ch3 (LPF_Init3 v n s) = sum_list (chan_window Ch3 (LPF_Init3 v n s))" .
  have sz: "Size (LPF_Init3 v n s) = min n 512" by (simp add: LPF_Init3_eq)
  have pos: "0 < min n 512" using n by (simp add: min_def word_neq_0_conv)
  then have upos: "0 < unat (min n 512)" by (simp add: word_less_nat_alt)
  have idx: "chan_idx Ch3 (LPF_Init3 v n s) = Some 0" by (simp add: LPF_Init3_eq)
  show ?thesis
    unfolding chan_inv_def
  proof (intro conjI)
    show "0 < Size (LPF_Init3 v n s)" using pos by (simp only: sz)
    show "Size (LPF_Init3 v n s) \<le> chan_max Ch3" by (simp add: sz)
    show "case chan_idx Ch3 (LPF_Init3 v n s) of None \<Rightarrow> False
        | Some i \<Rightarrow> i < unat (Size (LPF_Init3 v n s))"
      using upos by (simp only: idx sz option.case)
    show "chan_sum Ch3 (LPF_Init3 v n s) = sum_list (chan_window Ch3 (LPF_Init3 v n s))"
      by (rule sum)
  qed
qed

lemma window_double_update:
  assumes "p < n"
  shows "map (f(p + n := d, p := d)) [0..<n] = (map f [0..<n])[p := d]"
  using assms by (intro nth_equalityI) (auto simp add: nth_list_update)

lemma LPF_Calc2_step:
  assumes "chan_inv Ch2 s"
  shows "\<exists>y s' p. Pt2 s = Some p \<and> LPF_Calc2 d s = Inr (y, s') \<and> chan_inv Ch2 s' \<and> Size s' = Size s
      \<and> Pt2 s' = Some (prev_index (unat (Size s)) p) \<and> y = LPFSum2 s' div Size s'"
proof -
  let ?n = "unat (Size s)"
  from assms obtain p where pt: "Pt2 s = Some p" and p: "p < ?n"
    by (auto simp add: chan_inv_def split: option.splits)
  from assms have pos: "0 < Size s" and le: "Size s \<le> 512"
    and sum: "LPFSum2 s = sum_list (chan_window Ch2 s)"
    by (simp_all add: chan_inv_def)
  from pos have sz: "Size s \<noteq> 0" by auto
  from le have n512: "?n \<le> 512" by (simp add: word_le_nat_alt)
  let ?p = "prev_index ?n p"
  have p': "?p < ?n" using p by (rule prev_index_less)
  have "unat (Size s - 1) = ?n - 1" using sz by (simp add: unat_minus_one)
  then have pe: "(if p = 0 then unat (Size s - 1) else p - 1) = ?p" by (simp add: prev_index_def)
  let ?s' = "s\<lparr>Pt2 := Some ?p, LPFSum2 := LPFSum2 s + d - x2_buf s ?p,
      x2_buf := (x2_buf s)(?p + ?n := d, ?p := d)\<rparr>"
  have b1: "\<not> x_len \<le> ?p" and b2: "\<not> x_len \<le> ?p + ?n"
    using p' n512 by (simp_all add: x_len_def)
  have c: "LPF_Calc2 d s = Inr (LPFSum2 ?s' div Size ?s', ?s')"
    using b1 b2 sz by (simp add: LPF_Calc2_def pt Let_def pe)
  have w: "chan_window Ch2 ?s' = (chan_window Ch2 s)[?p := d]"
    using window_double_update [OF p', of "x2_buf s" d] by (simp add: chan_window_def)
  have sum': "chan_sum Ch2 ?s' = sum_list (chan_window Ch2 ?s')"
  proof -
    have "chan_sum Ch2 ?s' = LPFSum2 s + d - x2_buf s ?p" by simp
    also have "\<dots> = sum_list (chan_window Ch2 s) + d - chan_window Ch2 s ! ?p"
      using p' by (simp add: sum chan_window_def)
    also have "\<dots> = sum_list ((chan_window Ch2 s)[?p := d])"
      using p' by (simp add: sum_list_update_word chan_window_def)
    also have "\<dots> = sum_list (chan_window Ch2 ?s')" by (simp only: w)
    finally show ?thesis .
  qed
  have inv: "chan_inv Ch2 ?s'"
    unfolding chan_inv_def
  proof (intro conjI)
    show "0 < Size ?s'" using pos by simp
    show "Size ?s' \<le> chan_max Ch2" using le by simp
    show "case chan_idx Ch2 ?s' of None \<Rightarrow> False | Some i \<Rightarrow> i < unat (Size ?s')"
      using p' by simp
    show "chan_sum Ch2 ?s' = sum_list (chan_window Ch2 ?s')" by (rule sum')
  qed
  show ?thesis
    using pt c inv by (intro exI [of _ "LPFSum2 ?s' div Size ?s'"] exI [of _ ?s'] exI [of _ p]) simp
qed

lemma LPF_Calc3_step:
  assumes "chan_inv Ch3 s"
  shows "\<exists>y s' p. Pt3 s = Some p \<and> LPF_Calc3 d s = Inr (y, s') \<and> chan_inv Ch3 s' \<and> Size s' = Size s
      \<and> Pt3 s' = Some (prev_index (unat (Size s)) p) \<and> y = LPFSum3 s' div Size s'"
proof -
  let ?n = "unat (Size s)"
  from assms obtain p where pt: "Pt3 s = Some p" and p: "p < ?n"
    by (auto simp add: chan_inv_def split: option.splits)
  from assms have pos: "0 < Size s" and le: "Size s \<le> 512"
    and sum: "LPFSum3 s = sum_list (chan_window Ch3 s)"
    by (simp_all add: chan_inv_def)
  from pos have sz: "Size s \<noteq> 0" by auto
  from le have n512: "?n \<le> 512" by (simp add: word_le_nat_alt)
  let ?p = "prev_index ?n p"
  have p': "?p < ?n" using p by (rule prev_index_less)
  have "unat (Size s - 1) = ?n - 1" using sz by (simp add: unat_minus_one)
  then have pe: "(if p = 0 then unat (Size s - 1) else p - 1) = ?p" by (simp add: prev_index_def)
  let ?s' = "s\<lparr>Pt3 := Some ?p, LPFSum3 := LPFSum3 s + d - x3_buf s ?p,
      x3_buf := (x3_buf s)(?p + ?n := d, ?p := d)\<rparr>"
  have b1: "\<not> x_len \<le> ?p" and b2: "\<not> x_len \<le> ?p + ?n"
    using p' n512 by (simp_all add: x_len_def)
  have c: "LPF_Calc3 d s = Inr (LPFSum3 ?s' div Size ?s', ?s')"
    using b1 b2 sz by (simp add: LPF_Calc3_def pt Let_def pe)
  have w: "chan_window Ch3 ?s' = (chan_window Ch3 s)[?p := d]"
    using window_double_update [OF p', of "x3_buf s" d] by (simp add: chan_window_def)
  have sum': "chan_sum Ch3 ?s' = sum_list (chan_window Ch3 ?s')"
  proof -
    have "chan_sum Ch3 ?s' = LPFSum3 s + d - x3_buf s ?p" by simp
    also have "\<dots> = sum_list (chan_window Ch3 s) + d - chan_window Ch3 s ! ?p"
      using p' by (simp add: sum chan_window_def)
    also have "\<dots> = sum_list ((chan_window Ch3 s)[?p := d])"
      using p' by (simp add: sum_list_update_word chan_window_def)
    also have "\<dots> = sum_list (chan_window Ch3 ?s')" by (simp only: w)
    finally show ?thesis .
  qed
  have inv: "chan_inv Ch3 ?s'"
    unfolding chan_inv_def
  proof (intro conjI)
    show "0 < Size ?s'" using pos by simp
    show "Size ?s' \<le> chan_max Ch3" using le by simp
    show "case chan_idx Ch3 ?s' of None \<Rightarrow> False | Some i \<Rightarrow> i < unat (Size ?s')"
      using p' by simp
    show "chan_sum Ch3 ?s' = sum_list (chan_window Ch3 ?s')" by (rule sum')
  qed
  show ?thesis
    using pt c inv by (intro exI [of _ "LPFSum3 ?s' div Size ?s'"] exI [of _ ?s'] exI [of _ p]) simp
qed

lemma LPF_Init_ch_inv: "N \<noteq> 0 \<Longrightarrow> chan_inv c (LPF_Init_ch c v N s)"
  by (cases c) (simp_all add: chan_inv_Ch1 LPF_Init_inv LPF_Init2_inv LPF_Init3_inv)

lemma LPF_Calc_ch_step:
  assumes "chan_inv c s"
  shows "\<exists>y s' i. chan_idx c s = Some i \<and> LPF_Calc_ch c d s = Inr (y, s') \<and> chan_inv c s'
      \<and> Size s' = Size s \<and> chan_idx c s' = Some ((i + unat (Size s) - 1) mod unat (Size s))
      \<and> y = chan_sum c s' div Size s'"
proof (cases c)
  case Ch1
  with assms have inv: "lpf_inv s" by (simp add: chan_inv_Ch1)
  then have lt: "unat (I1 s) < unat (Size s)" by (simp add: lpf_inv_def lpf_ok_def)
  from LPF_Calc_step [OF inv, of d] obtain s' where
    c: "LPF_Calc d s = Inr (sum_list (d # butlast (history s)) div Size s, s')"
    and inv': "lpf_inv s'" and sz: "Size s' = Size s" and h: "history s' = d # butlast (history s)"
    and i: "unat (I1 s') = prev_index (unat (Size s)) (unat (I1 s))"
    by blast
  have "sum_list (d # butlast (history s)) = sum_list (window s')"
    using sum_list_history [of s'] by (simp only: h)
  also have "\<dots> = LPFSum s'" using inv' by (simp add: lpf_inv_def)
  finally have y: "sum_list (d # butlast (history s)) div Size s = LPFSum s' div Size s'"
    by (simp only: sz)
  show ?thesis
    using Ch1 c inv' sz i prev_index_mod [OF lt] y
    by (intro exI [of _ "sum_list (d # butlast (history s)) div Size s"] exI [of _ s']
        exI [of _ "unat (I1 s)"]) (simp add: chan_inv_Ch1)
next
  case Ch2
  with assms have inv: "chan_inv Ch2 s" by simp
  from LPF_Calc2_step [OF inv, of d] obtain y s' p where
    pt: "Pt2 s = Some p" and c: "LPF_Calc2 d s = Inr (y, s')" and inv': "chan_inv Ch2 s'"
    and sz: "Size s' = Size s" and pt': "Pt2 s' = Some (prev_index (unat (Size s)) p)"
    and y: "y = LPFSum2 s' div Size s'"
    by blast
  from inv pt have lt: "p < unat (Size s)" by (simp add: chan_inv_def)
  show ?thesis
    using Ch2 pt c inv' sz pt' y prev_index_mod [OF lt]
    by (intro exI [of _ y] exI [of _ s'] exI [of _ p]) simp
next
  case Ch3
  with assms have inv: "chan_inv Ch3 s" by simp
  from LPF_Calc3_step [OF inv, of d] obtain y s' p where
    pt: "Pt3 s = Some p" and c: "LPF_Calc3 d s = Inr (y, s')" and inv': "chan_inv Ch3 s'"
    and sz: "Size s' = Size s" and pt': "Pt3 s' = Some (prev_index (unat (Size s)) p)"
    and y: "y = LPFSum3 s' div Size s'"
    by blast
  from inv pt have lt: "p < unat (Size s)" by (simp add: chan_inv_def)
  show ?thesis
    using Ch3 pt c inv' sz pt' y prev_index_mod [OF lt]
    by (intro exI [of _ y] exI [of _ s'] exI [of _ p]) simp
qed

lemma chan_average_between:
  assumes "chan_inv c s" "chan_total c s < 2 ^ 32"
  shows "Min (set (chan_window c s)) \<le> chan_sum c s div Size s
    \<and> chan_sum c s div Size s \<le> Max (set (chan_window c s))"
proof -
  from assms(1) have pos: "0 < Size s" and sum: "chan_sum c s = sum_list (chan_window c s)"
    by (simp_all add: chan_inv_def)
  from pos have "0 < unat (Size s)" by (simp add: word_less_nat_alt)
  then have ne: "chan_window c s \<noteq> []" by (simp add: chan_window_def)
  have len: "unat (Size s) = length (chan_window c s)" by (simp add: chan_window_def)
  from assms(2) have "sum_list (map unat (chan_window c s)) < 2 ^ 32" by (simp add: chan_total_def)
  from average_between [OF ne this len] show ?thesis by (simp only: sum)
qed

lemma chan_sum_no_overflow:
  assumes "chan_inv c s" "chan_total c s < 2 ^ 32"
  shows "unat (chan_sum c s) = chan_total c s"
proof -
  from assms(1) have sum: "chan_sum c s = sum_list (chan_window c s)" by (simp add: chan_inv_def)
  from assms(2) have "sum_list (map unat (chan_window c s)) < 2 ^ 32" by (simp add: chan_total_def)
  from unat_sum_list_no_overflow [OF this] show ?thesis by (simp add: sum chan_total_def)
qed

lemma Inr_projr: "\<not> isl r \<Longrightarrow> r = Inr (fst (projr r), snd (projr r))"
  by (cases r) simp_all

lemmas lpf_eval = LPF_Init_eq LPF_Init2_eq LPF_Init3_eq LPF_Calc_def LPF_Calc2_def LPF_Calc3_def
  Let_def lpf_reset_def x_len_def min_def


subsection \<open>What a call on one channel does to the others\<close>

lemma chan_state_Ch1: "chan_state Ch1 s = chan_state Ch1 t \<longleftrightarrow> x_buf s = x_buf t \<and> I1 s = I1 t \<and> LPFSum s = LPFSum t"
  by (auto simp add: chan_state_def word_unat_eq_iff)

lemma LPF_Init_ch_frame:
  "c \<noteq> c' \<Longrightarrow> Size (LPF_Init_ch c v n s) = min n (chan_max c)
     \<and> chan_state c' (LPF_Init_ch c v n s) = chan_state c' s"
  by (cases c; cases c') (simp_all add: LPF_Init_eq LPF_Init2_eq LPF_Init3_eq chan_state_def)

lemma LPF_Calc_ch_frame:
  "c \<noteq> c' \<Longrightarrow> LPF_Calc_ch c d s = Inr (y, s') \<Longrightarrow> Size s' = Size s \<and> chan_state c' s' = chan_state c' s"
  by (cases c; cases c')
    (auto simp add: LPF_Calc_def LPF_Calc2_def LPF_Calc3_def Let_def chan_state_def
      split: if_splits option.splits)

lemma LPF_Calc_ch_local:
  assumes "Size s = Size t" "chan_state c s = chan_state c t"
  shows "map_sum id (chan_obs c) (LPF_Calc_ch c d s) = map_sum id (chan_obs c) (LPF_Calc_ch c d t)"
proof (cases c)
  case Ch1
  with assms(2) have "x_buf s = x_buf t" "I1 s = I1 t" "LPFSum s = LPFSum t"
    by (simp_all add: chan_state_Ch1)
  with assms(1) Ch1 show ?thesis
    by (simp add: LPF_Calc_def Let_def chan_state_def chan_obs_def)
next
  case Ch2
  with assms show ?thesis
    by (auto simp add: LPF_Calc2_def Let_def chan_state_def chan_obs_def split: option.splits)
next
  case Ch3
  with assms show ?thesis
    by (auto simp add: LPF_Calc3_def Let_def chan_state_def chan_obs_def split: option.splits)
qed

lemma LPF_Calc_seq_local:
  "Size s = Size t \<Longrightarrow> chan_state Ch1 s = chan_state Ch1 t \<Longrightarrow>
   map_sum id fst (LPF_Calc_seq ds s) = map_sum id fst (LPF_Calc_seq ds t)"
proof (induction ds arbitrary: s t)
  case Nil
  then show ?case by simp
next
  case (Cons d ds)
  from LPF_Calc_ch_local [OF Cons.prems, of d]
  have l: "map_sum id (chan_obs Ch1) (LPF_Calc d s) = map_sum id (chan_obs Ch1) (LPF_Calc d t)"
    by simp
  show ?case
  proof (cases "LPF_Calc d s")
    case (Inl e)
    with l have "LPF_Calc d t = Inl e" by (cases "LPF_Calc d t") simp_all
    with Inl show ?thesis by simp
  next
    case (Inr r)
    with l obtain r' where t: "LPF_Calc d t = Inr r'" and o: "chan_obs Ch1 r = chan_obs Ch1 r'"
      by (cases "LPF_Calc d t") simp_all
    obtain y s1 where r: "r = (y, s1)" by (cases r)
    obtain y' t1 where r': "r' = (y', t1)" by (cases r')
    from o r r' have y: "y = y'" and sz: "Size s1 = Size t1"
      and ch: "chan_state Ch1 s1 = chan_state Ch1 t1"
      by (simp_all add: chan_obs_def)
    from Cons.IH [OF sz ch]
    have "map_sum id fst (LPF_Calc_seq ds s1) = map_sum id fst (LPF_Calc_seq ds t1)" .
    then show ?thesis using Inr t r r' y
      by (cases "LPF_Calc_seq ds s1"; cases "LPF_Calc_seq ds t1") (auto split: prod.splits)
  qed
qed

lemma chan_inv_ready: "chan_inv c s \<Longrightarrow> chan_ready c s"
  by (simp add: chan_inv_def chan_ready_def)

lemma chan_window_cong:
  "Size s = Size t \<Longrightarrow> chan_state c s = chan_state c t \<Longrightarrow> chan_window c t = chan_window c s"
  by (simp add: chan_window_def chan_state_def)

lemma chan_inv_cong:
  assumes "Size s = Size t" "chan_state c s = chan_state c t"
  shows "chan_inv c t = chan_inv c s"
proof -
  from assms(2) have "chan_idx c t = chan_idx c s" "chan_sum c t = chan_sum c s"
    by (simp_all add: chan_state_def)
  then show ?thesis
    by (simp add: chan_inv_def chan_window_cong [OF assms] assms(1) [symmetric]
        cong: option.case_cong)
qed

lemma chan_ready_cong:
  assumes "Size s = Size t" "chan_state c s = chan_state c t"
  shows "chan_ready c t = chan_ready c s"
proof -
  from assms(2) have "chan_idx c t = chan_idx c s" by (simp add: chan_state_def)
  then show ?thesis by (simp add: chan_ready_def assms(1) [symmetric] cong: option.case_cong)
qed

lemma chan_ready_Ch1: "chan_ready Ch1 s = lpf_ok s"
  by (auto simp add: chan_ready_def lpf_ok_def x_len_def word_le_nat_alt word_less_nat_alt)

lemma LPF_Calc_ready:
  assumes "chan_ready Ch1 s"
  shows "\<exists>y s'. LPF_Calc d s = Inr (y, s') \<and> chan_ready Ch1 s' \<and> Size s' = Size s"
proof -
  from assms have ok: "lpf_ok s" by (simp add: chan_ready_Ch1)
  let ?n = "unat (Size s)" and ?p = "prev_index (unat (Size s)) (unat (I1 s))"
  from LPF_Calc_eq [OF ok, of d] obtain i' where i': "unat i' = ?p"
    and c: "LPF_Calc d s = Inr ((LPFSum s + d - x_buf s ?p) div Size s,
         s\<lparr>I1 := i', LPFSum := LPFSum s + d - x_buf s ?p, x_buf := (x_buf s)(?p := d)\<rparr>)"
    by blast
  from ok have "unat (I1 s) < ?n" by (simp add: lpf_ok_def)
  then have p: "?p < ?n" by (rule prev_index_less)
  have "lpf_ok (s\<lparr>I1 := i', LPFSum := LPFSum s + d - x_buf s ?p, x_buf := (x_buf s)(?p := d)\<rparr>)"
    using ok p i' by (simp add: lpf_ok_def)
  then show ?thesis using c by (simp add: chan_ready_Ch1)
qed

lemma LPF_Calc2_ready:
  assumes "chan_ready Ch2 s"
  shows "\<exists>y s'. LPF_Calc2 d s = Inr (y, s') \<and> chan_ready Ch2 s' \<and> Size s' = Size s"
proof -
  let ?n = "unat (Size s)"
  from assms obtain p where pt: "Pt2 s = Some p" and p: "p < ?n"
    by (auto simp add: chan_ready_def split: option.splits)
  from assms have pos: "0 < Size s" and le: "Size s \<le> 512"
    by (simp_all add: chan_ready_def)
  from pos have sz: "Size s \<noteq> 0" by auto
  from le have n512: "?n \<le> 512" by (simp add: word_le_nat_alt)
  let ?p = "prev_index ?n p"
  have p': "?p < ?n" using p by (rule prev_index_less)
  have "unat (Size s - 1) = ?n - 1" using sz by (simp add: unat_minus_one)
  then have pe: "(if p = 0 then unat (Size s - 1) else p - 1) = ?p" by (simp add: prev_index_def)
  let ?s' = "s\<lparr>Pt2 := Some ?p, LPFSum2 := LPFSum2 s + d - x2_buf s ?p,
      x2_buf := (x2_buf s)(?p + ?n := d, ?p := d)\<rparr>"
  have b1: "\<not> x_len \<le> ?p" and b2: "\<not> x_len \<le> ?p + ?n"
    using p' n512 by (simp_all add: x_len_def)
  have c: "LPF_Calc2 d s = Inr (LPFSum2 ?s' div Size ?s', ?s')"
    using b1 b2 sz by (simp add: LPF_Calc2_def pt Let_def pe)
  have "chan_ready Ch2 ?s'" using pos le p' by (simp add: chan_ready_def)
  then show ?thesis using c by (intro exI [of _ "LPFSum2 ?s' div Size ?s'"] exI [of _ ?s']) simp
qed

lemma LPF_Calc3_ready:
  assumes "chan_ready Ch3 s"
  shows "\<exists>y s'. LPF_Calc3 d s = Inr (y, s') \<and> chan_ready Ch3 s' \<and> Size s' = Size s"
proof -
  let ?n = "unat (Size s)"
  from assms obtain p where pt: "Pt3 s = Some p" and p: "p < ?n"
    by (auto simp add: chan_ready_def split: option.splits)
  from assms have pos: "0 < Size s" and le: "Size s \<le> 512"
    by (simp_all add: chan_ready_def)
  from pos have sz: "Size s \<noteq> 0" by auto
  from le have n512: "?n \<le> 512" by (simp add: word_le_nat_alt)
  let ?p = "prev_index ?n p"
  have p': "?p < ?n" using p by (rule prev_index_less)
  have "unat (Size s - 1) = ?n - 1" using sz by (simp add: unat_minus_one)
  then have pe: "(if p = 0 then unat (Size s - 1) else p - 1) = ?p" by (simp add: prev_index_def)
  let ?s' = "s\<lparr>Pt3 := Some ?p, LPFSum3 := LPFSum3 s + d - x3_buf s ?p,
      x3_buf := (x3_buf s)(?p + ?n := d, ?p := d)\<rparr>"
  have b1: "\<not> x_len \<le> ?p" and b2: "\<not> x_len \<le> ?p + ?n"
    using p' n512 by (simp_all add: x_len_def)
  have c: "LPF_Calc3 d s = Inr (LPFSum3 ?s' div Size ?s', ?s')"
    using b1 b2 sz by (simp add: LPF_Calc3_def pt Let_def pe)
  have "chan_ready Ch3 ?s'" using pos le p' by (simp add: chan_ready_def)
  then show ?thesis using c by (intro exI [of _ "LPFSum3 ?s' div Size ?s'"] exI [of _ ?s']) simp
qed

lemma LPF_Calc_ch_ready:
  "chan_ready c s \<Longrightarrow>
   \<exists>y s'. LPF_Calc_ch c d s = Inr (y, s') \<and> chan_ready c s' \<and> Size s' = Size s"
  by (cases c) (simp_all add: LPF_Calc_ready LPF_Calc2_ready LPF_Calc3_ready)

text \<open>An update of a ready channel returns and leaves the other channels as they are.\<close>

lemma LPF_Calc_ch_ready_frame:
  assumes "chan_ready c s"
  shows "\<exists>y s'. LPF_Calc_ch c d s = Inr (y, s') \<and> chan_ready c s' \<and> Size s' = Size s
     \<and> (\<forall>c'. c' \<noteq> c \<longrightarrow> chan_state c' s' = chan_state c' s)"
proof -
  from LPF_Calc_ch_ready [OF assms, of d] obtain y s' where
    c: "LPF_Calc_ch c d s = Inr (y, s')" and r: "chan_ready c s'" and sz: "Size s' = Size s"
    by blast
  have "chan_state c' s' = chan_state c' s" if "c' \<noteq> c" for c'
    using LPF_Calc_ch_frame [of c c' d s y s'] that c by simp
  with c r sz show ?thesis by blast
qed

lemma LPF_Calc_ch_keeps_other_inv:
  assumes "c' \<noteq> c" "chan_inv c s" "chan_ready c' s"
  shows "\<exists>y s'. LPF_Calc_ch c' d s = Inr (y, s') \<and> chan_inv c s' \<and> chan_ready c' s'"
proof -
  from LPF_Calc_ch_ready_frame [OF assms(3), of d] obtain y s' where
    c: "LPF_Calc_ch c' d s = Inr (y, s')" and r: "chan_ready c' s'" and sz: "Size s' = Size s"
    and f: "\<forall>k. k \<noteq> c' \<longrightarrow> chan_state k s' = chan_state k s"
    by blast
  from f assms(1) have st: "chan_state c s' = chan_state c s" by (simp add: eq_commute)
  have "chan_inv c s' = chan_inv c s" using chan_inv_cong [of s s' c] sz st by simp
  with assms(2) c r show ?thesis by blast
qed

lemma LPF_Init_ch_keeps_other_inv:
  assumes "c' \<noteq> c" "chan_inv c s" "Size s = min n (chan_max c')"
  shows "chan_inv c (LPF_Init_ch c' v n s)"
proof -
  from LPF_Init_ch_frame [OF assms(1), of v n s]
  have sz: "Size (LPF_Init_ch c' v n s) = Size s"
    and st: "chan_state c (LPF_Init_ch c' v n s) = chan_state c s"
    by (simp_all add: assms(3))
  have "chan_inv c (LPF_Init_ch c' v n s) = chan_inv c s"
    using chan_inv_cong [of s "LPF_Init_ch c' v n s" c] sz st by simp
  with assms(2) show ?thesis by simp
qed


lemma LPF_Calc_seq_ready:
  "chan_ready Ch1 s \<Longrightarrow> \<exists>ys s'. LPF_Calc_seq ds s = Inr (ys, s') \<and> chan_ready Ch1 s'"
proof (induction ds arbitrary: s)
  case Nil
  then show ?case by simp
next
  case (Cons d ds)
  from LPF_Calc_ch_ready [OF Cons.prems, of d] obtain y s1 where
    c: "LPF_Calc d s = Inr (y, s1)" and r: "chan_ready Ch1 s1"
    by auto
  from Cons.IH [OF r] obtain ys s2 where
    "LPF_Calc_seq ds s1 = Inr (ys, s2)" "chan_ready Ch1 s2"
    by blast
  with c show ?case by simp
qed

lemma LPF_Calc_seq_same_outputs:
  assumes "chan_ready Ch1 s" "Size s = Size t" "chan_state Ch1 s = chan_state Ch1 t"
  shows "\<exists>ys. map_sum id fst (LPF_Calc_seq ds s) = Inr ys \<and> map_sum id fst (LPF_Calc_seq ds t) = Inr ys"
proof -
  from LPF_Calc_seq_ready [OF assms(1), of ds] obtain ys s' where
    "LPF_Calc_seq ds s = Inr (ys, s')" by blast
  then have "map_sum id fst (LPF_Calc_seq ds s) = Inr ys" by simp
  moreover have "map_sum id fst (LPF_Calc_seq ds t) = map_sum id fst (LPF_Calc_seq ds s)"
    using LPF_Calc_seq_local [OF assms(2,3), of ds] by simp
  ultimately show ?thesis by simp
qed

lemma LPF_Calc_ch_same_result:
  assumes "chan_ready c s" "Size s = Size t" "chan_state c s = chan_state c t"
  shows "\<exists>y s' t'. LPF_Calc_ch c d s = Inr (y, s') \<and> LPF_Calc_ch c d t = Inr (y, t')
     \<and> Size s' = Size t' \<and> chan_state c s' = chan_state c t'"
proof -
  from LPF_Calc_ch_ready [OF assms(1), of d] obtain y s' where
    c: "LPF_Calc_ch c d s = Inr (y, s')" by blast
  from LPF_Calc_ch_local [OF assms(2,3), of d] c
  have "map_sum id (chan_obs c) (LPF_Calc_ch c d t) = Inr (chan_obs c (y, s'))" by simp
  then obtain r where t: "LPF_Calc_ch c d t = Inr r" and o: "chan_obs c r = chan_obs c (y, s')"
    by (cases "LPF_Calc_ch c d t") auto
  obtain y' t' where r: "r = (y', t')" by (cases r)
  from o r have "y' = y" "Size t' = Size s'" "chan_state c t' = chan_state c s'"
    by (simp_all add: chan_obs_def)
  with c t r show ?thesis by auto
qed


subsection \<open>The invariant of the running sum\<close>

text \<open>
  Claim C7, as amended.  For each of the three filters \<open>c\<close>:
  its initialiser, called with a depth other than 0, establishes \<open>chan_inv c\<close>, in which
  \<open>Size\<close> is between 1 and the maximum of the filter, the position is inside the window and
  the running sum equals the sum of the \<open>Size\<close> values of the window in \<open>uint32_t\<close>
  arithmetic (modulo \<open>2^32\<close>);
  an update of \<open>c\<close> in a state with \<open>chan_inv c\<close> returns, keeps \<open>chan_inv c\<close> and the depth,
  moves the position down by one modulo \<open>Size\<close>, and returns the running sum divided by
  \<open>Size\<close>; whenever the sum of the window over the natural numbers is below \<open>2^32\<close>, the
  running sum is that sum and the returned value lies between the minimum and the maximum
  of the window, inclusive;
  an update of another filter \<open>c'\<close> that is ready (\<open>Size\<close> between 1 and the maximum of
  \<open>c'\<close>, the position of \<open>c'\<close> inside its window) returns and keeps \<open>chan_inv c\<close>;
  the initialiser of another filter \<open>c'\<close> keeps \<open>chan_inv c\<close> when the depth it is given,
  clamped at the maximum of \<open>c'\<close>, is the depth that \<open>Size\<close> holds already.
  \<open>Size\<close> is one variable of all three filters, so the last condition cannot be dropped:
  in the example after the theorem an initialiser of the second filter, given another
  depth, takes the invariant from the first filter.
\<close>

theorem LPF_running_sum_invariant:
  "(N \<noteq> 0 \<longrightarrow> chan_inv c (LPF_Init_ch c v N s))
   \<and> (chan_inv c s \<longrightarrow>
        (\<exists>y s' i. chan_idx c s = Some i \<and> LPF_Calc_ch c d s = Inr (y, s') \<and> chan_inv c s'
           \<and> Size s' = Size s
           \<and> chan_idx c s' = Some ((i + unat (Size s) - 1) mod unat (Size s))
           \<and> y = chan_sum c s' div Size s'
           \<and> (chan_total c s' < 2 ^ 32 \<longrightarrow>
                unat (chan_sum c s') = chan_total c s'
                \<and> Min (set (chan_window c s')) \<le> y \<and> y \<le> Max (set (chan_window c s')))))
   \<and> (c' \<noteq> c \<and> chan_inv c s \<and> chan_ready c' s \<longrightarrow>
        (\<exists>y s'. LPF_Calc_ch c' d s = Inr (y, s') \<and> chan_inv c s' \<and> chan_ready c' s'))
   \<and> (c' \<noteq> c \<and> chan_inv c s \<and> Size s = min n (chan_max c') \<longrightarrow>
        chan_inv c (LPF_Init_ch c' v n s))"
proof (intro conjI impI)
  assume "N \<noteq> 0"
  then show "chan_inv c (LPF_Init_ch c v N s)" by (rule LPF_Init_ch_inv)
next
  assume inv: "chan_inv c s"
  from LPF_Calc_ch_step [OF inv, of d] obtain y s' i where
    a: "chan_idx c s = Some i" "LPF_Calc_ch c d s = Inr (y, s')" "chan_inv c s'" "Size s' = Size s"
      "chan_idx c s' = Some ((i + unat (Size s) - 1) mod unat (Size s))"
    and y: "y = chan_sum c s' div Size s'"
    by blast
  have "chan_total c s' < 2 ^ 32 \<longrightarrow>
      unat (chan_sum c s') = chan_total c s'
      \<and> Min (set (chan_window c s')) \<le> y \<and> y \<le> Max (set (chan_window c s'))"
    using chan_average_between [OF a(3)] chan_sum_no_overflow [OF a(3)] by (simp only: y) blast
  with a y show "\<exists>y s' i. chan_idx c s = Some i \<and> LPF_Calc_ch c d s = Inr (y, s') \<and> chan_inv c s'
           \<and> Size s' = Size s
           \<and> chan_idx c s' = Some ((i + unat (Size s) - 1) mod unat (Size s))
           \<and> y = chan_sum c s' div Size s'
           \<and> (chan_total c s' < 2 ^ 32 \<longrightarrow>
                unat (chan_sum c s') = chan_total c s'
                \<and> Min (set (chan_window c s')) \<le> y \<and> y \<le> Max (set (chan_window c s')))"
    by blast
next
  assume "c' \<noteq> c \<and> chan_inv c s \<and> chan_ready c' s"
  then show "\<exists>y s'. LPF_Calc_ch c' d s = Inr (y, s') \<and> chan_inv c s' \<and> chan_ready c' s'"
    by (intro LPF_Calc_ch_keeps_other_inv) simp_all
next
  assume "c' \<noteq> c \<and> chan_inv c s \<and> Size s = min n (chan_max c')"
  then show "chan_inv c (LPF_Init_ch c' v n s)"
    by (intro LPF_Init_ch_keeps_other_inv) simp_all
qed

theorem LPF_running_sum_invariant_witness:
  "(4 :: uint32) \<noteq> 0 \<and> Ch3 \<noteq> Ch2
   \<and> Size (LPF_Init2 10 4 (LPF_Init 10 4 lpf_reset)) = min 4 (chan_max Ch3)
   \<and> chan_inv Ch2 lpf_three \<and> chan_ready Ch3 lpf_three
   \<and> (\<exists>y s'. LPF_Calc_ch Ch2 20 lpf_three = Inr (y, s')
        \<and> chan_total Ch2 s' < 2 ^ 32
        \<and> Min (set (chan_window Ch2 s')) \<le> y \<and> y \<le> Max (set (chan_window Ch2 s')))
   \<and> (\<exists>y s'. LPF_Calc_ch Ch3 20 lpf_three = Inr (y, s') \<and> chan_inv Ch2 s')"
proof -
  let ?s1 = "LPF_Init 10 4 lpf_reset"
  let ?s2 = "LPF_Init2 10 4 ?s1"
  have sz: "Size ?s2 = min 4 (chan_max Ch3)" by (simp add: lpf_eval)
  have "chan_inv Ch2 (LPF_Init_ch Ch2 10 4 ?s1)"
    using LPF_running_sum_invariant [where N = 4 and c = Ch2 and v = 10 and s = ?s1] by simp
  then have inv2: "chan_inv Ch2 ?s2" by simp
  have "chan_inv Ch2 (LPF_Init_ch Ch3 10 4 ?s2)"
    using LPF_running_sum_invariant [where c = Ch2 and c' = Ch3 and s = ?s2 and n = 4 and v = 10] inv2 sz by simp
  then have inv: "chan_inv Ch2 lpf_three" by (simp add: lpf_three_def)
  have rdy: "chan_ready Ch3 lpf_three" by (simp add: chan_ready_def lpf_three_def lpf_eval)
  from LPF_running_sum_invariant [where c = Ch2 and s = lpf_three and d = 20 and c' = Ch3] inv rdy
  obtain y s' where c: "LPF_Calc_ch Ch2 20 lpf_three = Inr (y, s')"
    and b: "chan_total Ch2 s' < 2 ^ 32 \<longrightarrow>
      unat (chan_sum Ch2 s') = chan_total Ch2 s'
      \<and> Min (set (chan_window Ch2 s')) \<le> y \<and> y \<le> Max (set (chan_window Ch2 s'))"
    by blast
  have "chan_total Ch2 (snd (projr (LPF_Calc_ch Ch2 20 lpf_three))) < 2 ^ 32"
    by (simp add: lpf_three_def lpf_eval chan_total_def chan_window_def upt_rec)
  with c have t: "chan_total Ch2 s' < 2 ^ 32" by simp
  from LPF_running_sum_invariant [where c = Ch2 and s = lpf_three and d = 20 and c' = Ch3] inv rdy
  have o: "\<exists>y s'. LPF_Calc_ch Ch3 20 lpf_three = Inr (y, s') \<and> chan_inv Ch2 s'"
    by blast
  show ?thesis using sz inv rdy c b t o by auto
qed

text \<open>
  The claim as it stands fails in two ways.  Without the bound on the sum the returned
  value can leave the window: depth 2, seed and update 3000000000 give a window of two
  values 3000000000 and the output 852516352.  And a call on another filter can break the
  invariant: after \<open>LPF_Init(10, 4)\<close> the first filter has its invariant, \<open>LPF_Init2(10, 2)\<close>
  sets \<open>Size\<close> to 2 and the invariant is gone, and the next \<open>LPF_Calc(10)\<close> returns 20
  while every value the first filter has stored is 10 and its running sum is 40.
\<close>

theorem LPF_output_outside_window:
  "map_sum id fst (LPF_Calc 3000000000 (LPF_Init 3000000000 2 lpf_reset)) = Inr 852516352
   \<and> map_sum id (\<lambda>r. chan_window Ch1 (snd r))
         (LPF_Calc_ch Ch1 3000000000 (LPF_Init_ch Ch1 3000000000 2 lpf_reset))
       = Inr [3000000000, 3000000000]
   \<and> chan_inv Ch1 (LPF_Init 10 4 lpf_reset)
   \<and> \<not> chan_inv Ch1 (LPF_Init2 10 2 (LPF_Init 10 4 lpf_reset))
   \<and> map_sum id (\<lambda>r. (fst r, chan_window Ch1 (snd r), chan_sum Ch1 (snd r), map (x_buf (snd r)) [0..<4]))
         (LPF_Calc 10 (LPF_Init2 10 2 (LPF_Init 10 4 lpf_reset)))
       = Inr (20, [10, 10], 40, [10, 10, 10, 10])"
  by (simp add: lpf_eval chan_inv_def chan_window_def upt_rec)

subsection \<open>The frame of the three channels\<close>

text \<open>
  Claim C8, as amended.  Each filter has its own array, position and running sum, and the
  three share the one depth \<open>Size\<close>.  For every pair of distinct channels \<open>c\<close> and \<open>c'\<close>:
  the initialiser of \<open>c\<close> leaves the array, position and running sum of \<open>c'\<close> unchanged and
  sets \<open>Size\<close> to the depth it is given, clamped at the maximum of \<open>c\<close>;
  an update of \<open>c\<close> in a state where \<open>c\<close> is ready (\<open>Size\<close> between 1 and the maximum of \<open>c\<close>,
  which is 1024 for the first filter and 512 for the other two, and the position of \<open>c\<close>
  inside its window) returns, leaves \<open>c\<close> ready, and leaves \<open>Size\<close> and the array, position
  and running sum of \<open>c'\<close> unchanged;
  in two states that agree on \<open>Size\<close> and on the array, position and running sum of \<open>c'\<close>,
  with \<open>c'\<close> ready, an update of \<open>c'\<close> returns in both, the same value, and leaves them in
  agreement;
  so, in a state where \<open>c\<close> and the first filter are ready, any sequence of calls of
  \<open>LPF_Calc\<close> returns the same outputs after an update of \<open>c\<close> as without it;
  and in a state where the first filter is ready, any sequence of calls of \<open>LPF_Calc\<close>
  returns the same outputs after an initialiser of \<open>c\<close> that is given the depth \<open>Size\<close>
  holds already as without it.
\<close>

theorem LPF_channel_frame:
  "c \<noteq> c' \<longrightarrow>
     (Size (LPF_Init_ch c v n s) = min n (chan_max c)
        \<and> chan_state c' (LPF_Init_ch c v n s) = chan_state c' s)
   \<and> (chan_ready c s \<longrightarrow>
        (\<exists>y s'. LPF_Calc_ch c d s = Inr (y, s') \<and> chan_ready c s'
           \<and> Size s' = Size s \<and> chan_state c' s' = chan_state c' s))
   \<and> (chan_ready c' s \<and> Size s = Size t \<and> chan_state c' s = chan_state c' t \<longrightarrow>
        (\<exists>y s' t'. LPF_Calc_ch c' e s = Inr (y, s') \<and> LPF_Calc_ch c' e t = Inr (y, t')
           \<and> Size s' = Size t' \<and> chan_state c' s' = chan_state c' t'))
   \<and> (c' = Ch1 \<and> chan_ready c s \<and> chan_ready Ch1 s \<longrightarrow>
        (\<exists>y s' ys. LPF_Calc_ch c d s = Inr (y, s')
           \<and> map_sum id fst (LPF_Calc_seq ds s') = Inr ys
           \<and> map_sum id fst (LPF_Calc_seq ds s) = Inr ys))
   \<and> (c' = Ch1 \<and> chan_ready Ch1 s \<and> Size s = min n (chan_max c) \<longrightarrow>
        (\<exists>ys. map_sum id fst (LPF_Calc_seq ds (LPF_Init_ch c v n s)) = Inr ys
           \<and> map_sum id fst (LPF_Calc_seq ds s) = Inr ys))"
proof (intro impI conjI)
  assume ne: "c \<noteq> c'"
  then have ne': "c' \<noteq> c" by simp
  from LPF_Init_ch_frame [OF ne, of v n s]
  show "Size (LPF_Init_ch c v n s) = min n (chan_max c)"
    and "chan_state c' (LPF_Init_ch c v n s) = chan_state c' s"
    by simp_all
  {
    assume "chan_ready c s"
    from LPF_Calc_ch_ready_frame [OF this, of d] ne'
    show "\<exists>y s'. LPF_Calc_ch c d s = Inr (y, s') \<and> chan_ready c s'
           \<and> Size s' = Size s \<and> chan_state c' s' = chan_state c' s"
      by blast
  }
  {
    assume "chan_ready c' s \<and> Size s = Size t \<and> chan_state c' s = chan_state c' t"
    then show "\<exists>y s' t'. LPF_Calc_ch c' e s = Inr (y, s') \<and> LPF_Calc_ch c' e t = Inr (y, t')
           \<and> Size s' = Size t' \<and> chan_state c' s' = chan_state c' t'"
      by (intro LPF_Calc_ch_same_result) simp_all
  }
  {
    assume a: "c' = Ch1 \<and> chan_ready c s \<and> chan_ready Ch1 s"
    from a LPF_Calc_ch_ready_frame [of c s d] ne' obtain y s' where
      c: "LPF_Calc_ch c d s = Inr (y, s')" and sz: "Size s' = Size s"
      and st: "chan_state Ch1 s' = chan_state Ch1 s"
      by blast
    from a have "chan_ready Ch1 s" by simp
    from LPF_Calc_seq_same_outputs [OF this sz [symmetric] st [symmetric], of ds] c
    show "\<exists>y s' ys. LPF_Calc_ch c d s = Inr (y, s')
           \<and> map_sum id fst (LPF_Calc_seq ds s') = Inr ys
           \<and> map_sum id fst (LPF_Calc_seq ds s) = Inr ys"
      by blast
  }
  {
    assume a: "c' = Ch1 \<and> chan_ready Ch1 s \<and> Size s = min n (chan_max c)"
    with LPF_Init_ch_frame [OF ne, of v n s]
    have sz: "Size s = Size (LPF_Init_ch c v n s)"
      and st: "chan_state Ch1 s = chan_state Ch1 (LPF_Init_ch c v n s)"
      by simp_all
    from a have "chan_ready Ch1 s" by simp
    from LPF_Calc_seq_same_outputs [OF this sz st, of ds]
    show "\<exists>ys. map_sum id fst (LPF_Calc_seq ds (LPF_Init_ch c v n s)) = Inr ys
           \<and> map_sum id fst (LPF_Calc_seq ds s) = Inr ys"
      by blast
  }
qed

theorem LPF_channel_frame_witness:
  "Ch2 \<noteq> Ch1 \<and> chan_ready Ch2 lpf_three \<and> chan_ready Ch1 lpf_three
   \<and> Size lpf_three = Size (LPF_Init 10 4 lpf_reset)
   \<and> chan_state Ch1 lpf_three = chan_state Ch1 (LPF_Init 10 4 lpf_reset)
   \<and> Size lpf_three = min 4 (chan_max Ch2)
   \<and> (\<exists>y s'. LPF_Calc_ch Ch2 20 lpf_three = Inr (y, s')
        \<and> Size s' = Size lpf_three \<and> chan_state Ch1 s' = chan_state Ch1 lpf_three)
   \<and> (\<exists>y s' t'. LPF_Calc_ch Ch1 20 lpf_three = Inr (y, s')
        \<and> LPF_Calc_ch Ch1 20 (LPF_Init 10 4 lpf_reset) = Inr (y, t'))
   \<and> (\<exists>y s' ys. LPF_Calc_ch Ch2 20 lpf_three = Inr (y, s')
        \<and> map_sum id fst (LPF_Calc_seq [20, 30] s') = Inr ys
        \<and> map_sum id fst (LPF_Calc_seq [20, 30] lpf_three) = Inr ys)
   \<and> (\<exists>ys. map_sum id fst (LPF_Calc_seq [20, 30] (LPF_Init_ch Ch2 7 4 lpf_three)) = Inr ys
        \<and> map_sum id fst (LPF_Calc_seq [20, 30] lpf_three) = Inr ys)"
proof -
  have ne: "Ch2 \<noteq> Ch1" by simp
  have r2: "chan_ready Ch2 lpf_three" by (simp add: chan_ready_def lpf_three_def lpf_eval)
  have r1: "chan_ready Ch1 lpf_three" by (simp add: chan_ready_def lpf_three_def lpf_eval)
  have sz: "Size lpf_three = Size (LPF_Init 10 4 lpf_reset)" by (simp add: lpf_three_def lpf_eval)
  have st: "chan_state Ch1 lpf_three = chan_state Ch1 (LPF_Init 10 4 lpf_reset)"
    by (simp add: lpf_three_def lpf_eval chan_state_def)
  have sm: "Size lpf_three = min 4 (chan_max Ch2)" by (simp add: lpf_three_def lpf_eval)
  note f = LPF_channel_frame [where c = Ch2 and c' = Ch1 and s = lpf_three and t = "LPF_Init 10 4 lpf_reset"
      and d = 20 and e = 20 and n = 4 and v = 7 and ds = "[20, 30]"]
  from f ne r2 have a: "\<exists>y s'. LPF_Calc_ch Ch2 20 lpf_three = Inr (y, s')
        \<and> Size s' = Size lpf_three \<and> chan_state Ch1 s' = chan_state Ch1 lpf_three"
    by blast
  from f ne r1 sz st have b: "\<exists>y s' t'. LPF_Calc_ch Ch1 20 lpf_three = Inr (y, s')
        \<and> LPF_Calc_ch Ch1 20 (LPF_Init 10 4 lpf_reset) = Inr (y, t')"
    by blast
  from f ne r1 r2 have c: "\<exists>y s' ys. LPF_Calc_ch Ch2 20 lpf_three = Inr (y, s')
        \<and> map_sum id fst (LPF_Calc_seq [20, 30] s') = Inr ys
        \<and> map_sum id fst (LPF_Calc_seq [20, 30] lpf_three) = Inr ys"
    by blast
  from f ne r1 sm have d: "\<exists>ys. map_sum id fst (LPF_Calc_seq [20, 30] (LPF_Init_ch Ch2 7 4 lpf_three)) = Inr ys
        \<and> map_sum id fst (LPF_Calc_seq [20, 30] lpf_three) = Inr ys"
    by blast
  from ne r2 r1 sz st sm a b c d show ?thesis by blast
qed

text \<open>
  The depth is not per channel: \<open>LPF_Init2\<close> with depth 2 changes \<open>Size\<close> from 4 to 2, and
  the next \<open>LPF_Calc\<close> of the first filter returns 20 instead of 10.
\<close>

theorem LPF_Init2_changes_first_filter:
  "Size (LPF_Init 10 4 lpf_reset) = 4
   \<and> Size (LPF_Init2 10 2 (LPF_Init 10 4 lpf_reset)) = 2
   \<and> map_sum id fst (LPF_Calc 10 (LPF_Init 10 4 lpf_reset)) = Inr 10
   \<and> map_sum id fst (LPF_Calc 10 (LPF_Init2 10 2 (LPF_Init 10 4 lpf_reset))) = Inr 20"
  by (simp add: lpf_eval)

text \<open>
  The condition on \<open>Size\<close> in \<open>chan_ready\<close> is needed for the second and third filter:
  \<open>LPF_Init\<close> accepts depths up to 1024, and with \<open>Size\<close> 513 the store \<open>*(Pt2+Size)\<close> of
  \<open>LPF_Calc2\<close> goes to \<open>x2[1025]\<close>, outside the array, where C gives the call no meaning.
\<close>

lemma LPF_Calc2_store_outside_array:
  "Size (LPF_Init 10 513 (LPF_Init2 10 4 lpf_reset)) = 513
   \<and> chan_idx Ch2 (LPF_Init 10 513 (LPF_Init2 10 4 lpf_reset)) = Some 0
   \<and> \<not> chan_ready Ch2 (LPF_Init 10 513 (LPF_Init2 10 4 lpf_reset))
   \<and> map_sum id fst (LPF_Calc2 20 (LPF_Init 10 513 (LPF_Init2 10 4 lpf_reset))) = Inl Out_Of_Bounds"
  by (simp add: lpf_eval chan_ready_def)


section \<open>Properties of the integer square root\<close>

lemma four_mult_le_square_sum: "4 * (a * b) \<le> (a + b) * (a + b)" for a b :: nat
proof -
  have "4 * (a * (a + d)) \<le> (a + (a + d)) * (a + (a + d))" for a d :: nat
    by (simp add: algebra_simps)
  then have le: "a \<le> b \<Longrightarrow> 4 * (a * b) \<le> (a + b) * (a + b)" for a b :: nat
    by (metis le_add_diff_inverse)
  show ?thesis
  proof (cases "a \<le> b")
    case True
    then show ?thesis by (rule le)
  next
    case False
    then have "b \<le> a" by simp
    from le [OF this] show ?thesis by (simp add: mult.commute add.commute)
  qed
qed

lemma mult_le_square_half_sum:
  fixes a b r :: nat
  assumes "a + b \<le> 2 * r"
  shows "a * b \<le> r * r"
proof -
  have "4 * (a * b) \<le> (a + b) * (a + b)" by (rule four_mult_le_square_sum)
  also have "\<dots> \<le> (2 * r) * (2 * r)" by (intro mult_le_mono) (rule assms)+
  also have "\<dots> = 4 * (r * r)" by simp
  finally show ?thesis by simp
qed

lemma newton_lower:
  assumes "0 < t" "r * r \<le> s"
  shows "r \<le> newton s t"
proof (rule ccontr)
  assume "\<not> r \<le> newton s t"
  then have "(t + s div t) div 2 < r" by (simp add: newton_def)
  then have "t + s div t < 2 * r" by simp
  then have "t + (s div t + 1) \<le> 2 * r" by simp
  then have "t * (s div t + 1) \<le> r * r" by (rule mult_le_square_half_sum)
  moreover have "s < t * (s div t + 1)"
    using assms(1) by (simp add: dividend_less_times_div)
  ultimately show False using assms(2) by simp
qed

lemma newton_upper:
  assumes "r < t" "s < (r + 1) * (r + 1)"
  shows "newton s t - r \<le> (t - r) div 2"
proof -
  have "r + 1 \<le> t" using assms(1) by simp
  then have "(r + 1) * (r + 1) \<le> (r + 1) * t" by (rule mult_le_mono2)
  then have "s < (r + 1) * t" using assms(2) by simp
  then have "s div t < r + 1" using assms(1) by (simp add: div_less_iff_less_mult)
  then have "t + s div t \<le> (t - r) + 2 * r" using assms(1) by simp
  then have "(t + s div t) div 2 \<le> ((t - r) + 2 * r) div 2" by (rule div_le_mono)
  then show ?thesis by (simp add: newton_def)
qed

lemma newton_at_root:
  assumes "0 < r" "s < (r + 1) * (r + 1)"
  shows "newton s r \<le> r + 1"
proof -
  have "(r + 1) * (r + 1) \<le> (r + 3) * r" using assms(1) by (simp add: algebra_simps)
  then have "s < (r + 3) * r" using assms(2) by simp
  then have "s div r < r + 3" using assms(1) by (simp add: div_less_iff_less_mult)
  then have "r + s div r \<le> 2 * (r + 1)" by simp
  then have "(r + s div r) div 2 \<le> (2 * (r + 1)) div 2" by (rule div_le_mono)
  then show ?thesis by (simp add: newton_def)
qed

lemma newton_excess:
  assumes "0 < r" "r * r \<le> s" "s < (r + 1) * (r + 1)" "r \<le> t"
  shows "r \<le> newton s t \<and> newton s t - r \<le> max 1 ((t - r) div 2)"
proof
  show "r \<le> newton s t" using assms by (intro newton_lower) simp_all
  show "newton s t - r \<le> max 1 ((t - r) div 2)"
  proof (cases "t = r")
    case True
    then show ?thesis using newton_at_root [OF assms(1,3)] by simp
  next
    case False
    with assms(4) have "r < t" by simp
    from newton_upper [OF this assms(3)] show ?thesis by simp
  qed
qed

lemma isqrt_step_unat:
  assumes "t \<noteq> 0" "unat t \<le> 65531" "unat s \<le> 655309"
  shows "unat (((t * t + s) div t) div 2 :: uint32) = newton (unat s) (unat t)"
proof -
  have pos: "0 < unat t" using assms(1) by (simp add: unat_gt_0)
  have "unat t * unat t \<le> 65531 * 65531" using assms(2) by (intro mult_le_mono) simp_all
  then have sq: "unat t * unat t \<le> 4294311961" by simp
  then have m: "unat (t * t) = unat t * unat t"
    using unat_mult_lem [of t t] by simp
  have a: "unat (t * t + s) = unat t * unat t + unat s"
    using unat_add_lem [of "t * t" s] sq assms(3) by (simp add: m)
  have "unat (((t * t + s) div t) div 2) = ((unat t * unat t + unat s) div unat t) div 2"
    by (simp add: unat_div a)
  also have "(unat t * unat t + unat s) div unat t = unat t + unat s div unat t"
    using pos by simp
  finally show ?thesis by (simp add: newton_def)
qed

lemma root_bound:
  assumes "r * r \<le> s" "s \<le> 655309"
  shows "r \<le> (809 :: nat)"
proof (rule ccontr)
  assume "\<not> r \<le> 809"
  then have "810 \<le> r" by simp
  then have "810 * 810 \<le> r * r" by (intro mult_le_mono)
  then show False using assms by simp
qed

lemma max_1_half: "max 1 (max 1 (e div 2) div 2 ^ k) \<le> max (1::nat) (e div 2 ^ Suc k)"
proof (cases "e div 2 = 0")
  case True
  then have "max 1 (e div 2) div 2 ^ k \<le> (1::nat)"
    by (metis div_le_dividend max_nat.right_neutral)
  then show ?thesis by simp
next
  case False
  then have "max 1 (e div 2) = e div 2" by simp
  then show ?thesis by (simp add: div_mult2_eq)
qed

lemma isqrt_loop_converges:
  assumes "0 < r" "r * r \<le> unat s" "unat s < (r + 1) * (r + 1)" "unat s \<le> 655309"
  shows "r \<le> unat t \<Longrightarrow> unat t - r \<le> e \<Longrightarrow> e \<le> 60000 \<Longrightarrow>
    \<exists>t'. isqrt_loop k s t = Inr t' \<and> r \<le> unat t' \<and> unat t' - r \<le> max 1 (e div 2 ^ k)"
proof (induction k arbitrary: t e)
  case 0
  then show ?case by simp
next
  case (Suc k)
  let ?t1 = "((t * t + s) div t) div 2"
  have r809: "r \<le> 809" using assms(2,4) by (rule root_bound)
  have "0 < unat t" using assms(1) Suc.prems(1) by simp
  then have tpos: "t \<noteq> 0" by (simp add: unat_gt_0)
  have tbound: "unat t \<le> 65531" using Suc.prems r809 by linarith
  have u: "unat ?t1 = newton (unat s) (unat t)"
    using tpos tbound assms(4) by (rule isqrt_step_unat)
  from newton_excess [OF assms(1-3) Suc.prems(1)]
  have lo: "r \<le> unat ?t1" and ex: "unat ?t1 - r \<le> max 1 ((unat t - r) div 2)"
    by (simp_all add: u)
  have "(unat t - r) div 2 \<le> e div 2" using Suc.prems(2) by (rule div_le_mono)
  then have "max 1 ((unat t - r) div 2) \<le> max 1 (e div 2)" by (rule max.mono [OF order_refl])
  with ex have ex': "unat ?t1 - r \<le> max 1 (e div 2)" by (rule order_trans)
  have small: "max 1 (e div 2) \<le> 60000" using Suc.prems(3) by simp
  from Suc.IH [OF lo ex' small] obtain t' where
    l: "isqrt_loop k s ?t1 = Inr t'" and r: "r \<le> unat t'"
    and b: "unat t' - r \<le> max 1 (max 1 (e div 2) div 2 ^ k)"
    by blast
  have "unat t' - r \<le> max 1 (e div 2 ^ Suc k)"
    using b max_1_half [of e k] by (rule order_trans)
  then show ?case using l r tpos by simp
qed

text \<open>
  Where \<open>t * t + s\<close> cannot overflow the iteration does compute the root: for every \<open>s\<close>
  from 1 to 655309, \<open>isqrt s\<close> returns (no iteration divides by zero), and the value is the
  integer square root \<open>r\<close> of \<open>s\<close> (the number with \<open>r * r \<le> s < (r + 1) * (r + 1)\<close>) or
  \<open>r + 1\<close>.
\<close>

theorem isqrt_within_one:
  assumes "1 \<le> unat s" "unat s \<le> 655309" "r * r \<le> unat s" "unat s < (r + 1) * (r + 1)"
  shows "\<exists>t. isqrt s = Inr t \<and> (unat t = r \<or> unat t = r + 1)"
proof -
  let ?t0 = "s div 10 + 1"
  let ?t1 = "((?t0 * ?t0 + s) div ?t0) div 2"
  have rpos: "0 < r"
  proof (rule ccontr)
    assume "\<not> 0 < r"
    then show False using assms(1,4) by simp
  qed
  have u0: "unat ?t0 = unat s div 10 + 1"
  proof -
    have "unat (s div 10) = unat s div 10" by (simp add: unat_div)
    moreover have "unat s div 10 + 1 < 2 ^ 32" using assms(2) by simp
    ultimately show ?thesis using unat_add_lem [of "s div 10" 1] by simp
  qed
  then have "0 < unat ?t0" by simp
  then have t0: "?t0 \<noteq> 0" by (simp only: unat_gt_0 not_False_eq_True)
  have b0: "unat ?t0 \<le> 65531" using assms(2) by (simp add: u0)
  have u1: "unat ?t1 = newton (unat s) (unat ?t0)"
    using t0 b0 assms(2) by (rule isqrt_step_unat)
  have lo: "r \<le> unat ?t1"
    using newton_lower [of "unat ?t0" r "unat s"] assms(3) by (simp add: u1 u0)
  have "unat s < (unat s div 10 + 1) * 10" by simp
  then have "unat s div unat ?t0 < 10" by (simp add: u0 div_less_iff_less_mult mult.commute)
  then have "unat ?t0 + unat s div unat ?t0 \<le> 65540" using b0 by simp
  then have "newton (unat s) (unat ?t0) \<le> 32770" by (simp add: newton_def)
  then have ex: "unat ?t1 - r \<le> 32769" using rpos by (simp add: u1)
  from isqrt_loop_converges [OF rpos assms(3,4,2) lo ex, of 15]
  obtain t' where l: "isqrt_loop 15 s ?t1 = Inr t'" and r: "r \<le> unat t'"
    and b: "unat t' - r \<le> max 1 (32769 div 2 ^ 15)"
    by auto
  have "isqrt s = isqrt_loop (Suc 15) s ?t0" by (simp add: isqrt_def)
  also have "\<dots> = isqrt_loop 15 s ?t1" using t0 by (simp only: isqrt_loop.simps if_False)
  finally have "isqrt s = Inr t'" using l by simp
  moreover have "unat t' - r \<le> 1" using b by simp
  ultimately show ?thesis using r by (intro exI [of _ t']) auto
qed

theorem isqrt_within_one_witness:
  "\<exists>t. isqrt 17 = Inr t \<and> (unat t = 4 \<or> unat t = 4 + 1)"
  using isqrt_within_one [of 17 4] by simp

text \<open>
  Claim C9.  For every 32-bit \<open>s\<close>, \<open>isqrt s\<close> is to be well defined (no iteration divides
  by zero) and to return a value that differs from the integer square root of \<open>s\<close> by at
  most 1.  The code does not do this outside the range from 1 to 655309: \<open>isqrt 0\<close> divides
  by zero in its second iteration (the guess goes from 1 to 0); from 655310 on
  \<open>t * t + s\<close> overflows 32 bits, \<open>isqrt 655310\<close> runs into a division by zero, and
  \<open>isqrt 1000000000\<close> returns 125000002, where the integer square root is 31622.
\<close>

theorem isqrt_fails_outside_range:
  "isqrt 0 = Inl Div_By_Zero \<and> isqrt 655310 = Inl Div_By_Zero
   \<and> isqrt 1000000000 = Inr 125000002
   \<and> (31622 :: nat) * 31622 \<le> 1000000000 \<and> 1000000000 < (31623 :: nat) * 31623"
proof -
  have "isqrt 0 = Inl Div_By_Zero" by code_simp
  moreover have "isqrt 655310 = Inl Div_By_Zero" by code_simp
  moreover have "isqrt 1000000000 = Inr 125000002" by code_simp
  ultimately show ?thesis by simp
qed

end
